theory Spec2Isabelle
  imports Main "HOL-Library.Monad_Syntax"
begin

section \<open>Data model\<close>

text \<open>
  The Go sources declare \<^verbatim>\<open>type Clause []int\<close> and \<^verbatim>\<open>type CNF []Clause\<close>; an
  assignment is a \<^verbatim>\<open>map[int]bool\<close>. A literal is a signed integer whose magnitude is the
  variable id. The only arithmetic the solver performs on a literal is negation and the
  comparison with zero, and the parser produces ids by counting up from 1, so literals are
  modelled as mathematical integers: on every value other than the least 64-bit integer Go's
  negation and \<^verbatim>\<open>abs\<close> agree with the ones used here.

  A Go map is a reference: a callee that writes to its \<^verbatim>\<open>assignment\<close> parameter changes
  the caller's map. Every function that writes to the map therefore returns the map it leaves
  behind, next to its Go results.
\<close>

type_synonym Clause = "int list"
type_synonym CNF = "Clause list"
type_synonym Assignment = "int \<rightharpoonup> bool"

section \<open>The simplifier\<close>

subsection \<open>assign\<close>

text \<open>
  The inner loop of \<^verbatim>\<open>assign\<close> over the literals of one clause. \<open>None\<close> is the
  \<^verbatim>\<open>skipClause = true; break\<close> exit, \<open>Some newClause\<close> the normal end of the loop.
\<close>

fun assign_clause :: "Clause \<Rightarrow> int \<Rightarrow> bool \<Rightarrow> Clause \<Rightarrow> Clause option" where
  "assign_clause [] variable val newClause = Some newClause"
| "assign_clause (literal # rest) variable val newClause =
     (if literal = variable \<and> val \<or> literal = - variable \<and> \<not> val then None
      else if literal \<noteq> variable \<and> literal \<noteq> - variable
           then assign_clause rest variable val (newClause @ [literal])
           else assign_clause rest variable val newClause)"

text \<open>The outer loop over the clauses, appending to \<^verbatim>\<open>newCNF\<close>.\<close>

fun assign_loop :: "CNF \<Rightarrow> int \<Rightarrow> bool \<Rightarrow> CNF \<Rightarrow> CNF" where
  "assign_loop [] variable val newCNF = newCNF"
| "assign_loop (clause # rest) variable val newCNF =
     (case assign_clause clause variable val [] of
        None \<Rightarrow> assign_loop rest variable val newCNF
      | Some newClause \<Rightarrow> assign_loop rest variable val (newCNF @ [newClause]))"

definition assign :: "CNF \<Rightarrow> int \<Rightarrow> bool \<Rightarrow> CNF" where
  "assign cnf variable val = assign_loop cnf variable val []"

subsection \<open>UnitPropagation\<close>

text \<open>The inner scan for the first clause of length 1; it yields that clause's literal.\<close>

fun find_unit :: "CNF \<Rightarrow> int option" where
  "find_unit [] = None"
| "find_unit (clause # rest) =
     (case clause of [unit] \<Rightarrow> Some unit | _ \<Rightarrow> find_unit rest)"

text \<open>
  The outer \<^verbatim>\<open>for { ... }\<close> loop: as long as a unit clause is found, record its variable
  and rewrite the formula by \<^verbatim>\<open>assign\<close>.
\<close>

function UnitPropagation_loop :: "CNF \<Rightarrow> Assignment \<Rightarrow> CNF \<times> Assignment" where
  "UnitPropagation_loop cnf assignment =
     (case find_unit cnf of
        None \<Rightarrow> (cnf, assignment)
      | Some unit \<Rightarrow>
          UnitPropagation_loop (assign cnf (abs unit) (unit > 0))
                               (assignment(abs unit \<mapsto> unit > 0)))"
  by pat_completeness auto

text \<open>Closed form of \<^verbatim>\<open>assign\<close>, used by every later proof.\<close>

definition satisfies_clause :: "Clause \<Rightarrow> int \<Rightarrow> bool \<Rightarrow> bool" where
  "satisfies_clause c x b = (\<exists>l\<in>set c. l = x \<and> b \<or> l = - x \<and> \<not> b)"

lemma assign_clause_eq:
  "assign_clause c x b acc =
     (if satisfies_clause c x b then None
      else Some (acc @ filter (\<lambda>l. l \<noteq> x \<and> l \<noteq> - x) c))"
  by (induction c arbitrary: acc) (auto simp: satisfies_clause_def)

lemma assign_loop_eq:
  "assign_loop cnf x b acc =
     acc @ map (filter (\<lambda>l. l \<noteq> x \<and> l \<noteq> - x)) (filter (\<lambda>c. \<not> satisfies_clause c x b) cnf)"
  by (induction cnf arbitrary: acc) (simp_all add: assign_clause_eq)

lemma assign_eq:
  "assign cnf x b =
     map (filter (\<lambda>l. l \<noteq> x \<and> l \<noteq> - x)) (filter (\<lambda>c. \<not> satisfies_clause c x b) cnf)"
  by (simp add: assign_def assign_loop_eq)

lemma find_unit_Some: "find_unit cnf = Some u \<Longrightarrow> [u] \<in> set cnf"
  by (induction cnf) (auto split: list.splits)

lemma find_unit_None: "find_unit cnf = None \<longleftrightarrow> (\<forall>c\<in>set cnf. length c \<noteq> 1)"
  by (induction cnf) (auto split: list.splits)

lemma length_filter_less_mem: "c \<in> set xs \<Longrightarrow> \<not> P c \<Longrightarrow> length (filter P xs) < length xs"
  by (induction xs) (auto simp: less_Suc_eq_le)

lemma length_assign_unit: "[u] \<in> set cnf \<Longrightarrow> length (assign cnf (abs u) (u > 0)) < length cnf"
  by (auto simp: assign_eq satisfies_clause_def intro!: length_filter_less_mem[where c="[u]"])

text \<open>Each round of the loop drops the unit clause it found, so the loop ends.\<close>

termination UnitPropagation_loop
  by (relation "measure (\<lambda>(cnf, asg). length cnf)") (auto dest!: find_unit_Some length_assign_unit)

declare UnitPropagation_loop.simps [simp del]

text \<open>
  After the loop, the final scan for an empty clause decides the boolean result. The triple
  is the Go result pair followed by the state of the caller's map.
\<close>

definition UnitPropagation :: "CNF \<Rightarrow> Assignment \<Rightarrow> CNF \<times> bool \<times> Assignment" where
  "UnitPropagation cnf assignment =
     (case UnitPropagation_loop cnf assignment of
        (cnf', assignment') \<Rightarrow>
          (cnf', \<not> (\<exists>clause\<in>set cnf'. length clause = 0), assignment'))"

subsection \<open>PureLiteralElimination\<close>

text \<open>
  \<^verbatim>\<open>literalCount\<close> is a \<^verbatim>\<open>map[int]int\<close> filled in one pass over all literals; reading a
  key that was never written gives 0.
\<close>

definition literalCount :: "CNF \<Rightarrow> int \<Rightarrow> nat" where
  "literalCount cnf literal = count_list (concat cnf) literal"

text \<open>
  The second loop ranges over the keys of \<^verbatim>\<open>literalCount\<close>. The counts are those of the
  formula on entry; \<^verbatim>\<open>cnf\<close> is rewritten as the loop goes.
\<close>

fun PureLiteralElimination_loop ::
  "int list \<Rightarrow> (int \<Rightarrow> nat) \<Rightarrow> CNF \<Rightarrow> Assignment \<Rightarrow> CNF \<times> Assignment" where
  "PureLiteralElimination_loop [] count cnf assignment = (cnf, assignment)"
| "PureLiteralElimination_loop (literal # rest) count cnf assignment =
     (if count literal > 0 \<and> count (- literal) = 0
      then PureLiteralElimination_loop rest count
             (assign cnf (abs literal) (literal > 0)) (assignment(abs literal \<mapsto> literal > 0))
      else PureLiteralElimination_loop rest count cnf assignment)"

text \<open>
  Go leaves the iteration order of a map unspecified. The model visits the keys in order of
  first occurrence; \<open>PureLiteralElimination_order\<close> below shows that every other order of
  the same keys gives the same formula and the same assignment.
\<close>

definition PureLiteralElimination :: "CNF \<Rightarrow> Assignment \<Rightarrow> CNF \<times> Assignment" where
  "PureLiteralElimination cnf assignment =
     PureLiteralElimination_loop (remdups (concat cnf)) (literalCount cnf) cnf assignment"

section \<open>The search engine\<close>

subsection \<open>Recursive DPLL\<close>

text \<open>
  The branching variable: \<^verbatim>\<open>var variable int\<close> starts at 0 and is set from the first
  literal of the first non-empty clause.
\<close>

fun choose_variable :: "CNF \<Rightarrow> int" where
  "choose_variable [] = 0"
| "choose_variable (clause # rest) =
     (case clause of literal # _ \<Rightarrow> abs literal | [] \<Rightarrow> choose_variable rest)"

text \<open>
  \<^verbatim>\<open>DPLL\<close> of \<^verbatim>\<open>satisfier.go\<close>. The map is shared by the whole recursion: the second
  recursive call receives the map as the first call left it (\<open>result\<close>), with the branching
  variable overwritten.
\<close>

function DPLL :: "CNF \<Rightarrow> Assignment \<Rightarrow> bool \<times> Assignment" where
  "DPLL cnf assignment =
     (case UnitPropagation cnf assignment of
        (cnf1, ok, assignment1) \<Rightarrow>
          if \<not> ok then (False, assignment1)
          else (case PureLiteralElimination cnf1 assignment1 of
            (cnf2, assignment2) \<Rightarrow>
              if length cnf2 = 0 then (True, assignment2)
              else (let variable = choose_variable cnf2 in
                case DPLL (assign cnf2 variable True) (assignment2(variable \<mapsto> True)) of
                  (satisfiable, result) \<Rightarrow>
                    if satisfiable then (True, result)
                    else DPLL (assign cnf2 variable False) (result(variable \<mapsto> False)))))"
  by pat_completeness auto

text \<open>The variables and literals that occur in a formula.\<close>

definition literals :: "CNF \<Rightarrow> int set" where
  "literals cnf = (\<Union>clause\<in>set cnf. set clause)"

definition variables :: "CNF \<Rightarrow> int set" where
  "variables cnf = abs ` literals cnf"

lemma finite_variables: "finite (variables cnf)"
  by (simp add: variables_def literals_def)

lemma literals_assign: "literals (assign cnf x b) \<subseteq> literals cnf - {x, - x}"
  by (auto simp: literals_def assign_eq)

lemma variables_assign: "variables (assign cnf x b) \<subseteq> variables cnf - {abs x}"
  by (auto simp: variables_def literals_def assign_eq)

lemma variables_assign_sub: "variables (assign cnf x b) \<subseteq> variables cnf"
  using variables_assign by blast

lemma variables_mono: "set cnf' \<subseteq> set cnf \<Longrightarrow> variables cnf' \<subseteq> variables cnf"
  by (auto simp: variables_def literals_def)

lemma UnitPropagation_loop_None:
  "find_unit cnf = None \<Longrightarrow> UnitPropagation_loop cnf asg = (cnf, asg)"
  by (simp add: UnitPropagation_loop.simps[of cnf])

lemma UnitPropagation_loop_Some:
  "find_unit cnf = Some u \<Longrightarrow>
   UnitPropagation_loop cnf asg =
     UnitPropagation_loop (assign cnf (abs u) (u > 0)) (asg(abs u \<mapsto> u > 0))"
  by (simp add: UnitPropagation_loop.simps[of cnf])

lemma UnitPropagation_loop_induct [case_names None Some]:
  assumes "\<And>cnf asg. find_unit cnf = None \<Longrightarrow> P cnf asg"
    and "\<And>cnf asg u. find_unit cnf = Some u \<Longrightarrow>
           P (assign cnf (abs u) (u > 0)) (asg(abs u \<mapsto> u > 0)) \<Longrightarrow> P cnf asg"
  shows "P cnf asg"
proof (induction cnf asg rule: UnitPropagation_loop.induct)
  case (1 cnf asg)
  show ?case
  proof (cases "find_unit cnf")
    case None
    then show ?thesis by (rule assms(1))
  next
    case (Some u)
    from Some 1[OF Some] show ?thesis by (rule assms(2))
  qed
qed

lemma variables_UnitPropagation_loop:
  "variables (fst (UnitPropagation_loop cnf asg)) \<subseteq> variables cnf"
proof (induct cnf asg rule: UnitPropagation_loop_induct)
  case (None cnf asg)
  then show ?case by (simp add: UnitPropagation_loop_None)
next
  case (Some cnf asg u)
  have "variables (fst (UnitPropagation_loop cnf asg)) =
        variables (fst (UnitPropagation_loop (assign cnf (abs u) (u > 0)) (asg(abs u \<mapsto> u > 0))))"
    by (simp only: UnitPropagation_loop_Some[OF Some.hyps(1)])
  also have "\<dots> \<subseteq> variables (assign cnf (abs u) (u > 0))"
    by (rule Some.hyps(2))
  also have "\<dots> \<subseteq> variables cnf"
    by (rule variables_assign_sub)
  finally show ?case .
qed

lemma UnitPropagation_ok_no_empty:
  "UnitPropagation cnf asg = (cnf1, True, asg1) \<Longrightarrow> [] \<notin> set cnf1"
  by (auto simp: UnitPropagation_def split: prod.splits)

lemma variables_UnitPropagation:
  "UnitPropagation cnf asg = (cnf1, ok, asg1) \<Longrightarrow> variables cnf1 \<subseteq> variables cnf"
  using variables_UnitPropagation_loop[of cnf asg]
  by (auto simp: UnitPropagation_def split: prod.splits)

lemma satisfies_clause_sign: "satisfies_clause c (abs l) (l > 0) \<longleftrightarrow> l \<in> set c"
  by (cases "l > 0") (auto simp: satisfies_clause_def)

text \<open>Assigning a literal whose negation does not occur only drops clauses.\<close>

lemma assign_pure:
  assumes "- l \<notin> literals cnf"
  shows "assign cnf (abs l) (l > 0) = filter (\<lambda>c. l \<notin> set c) cnf"
proof -
  have "map (filter (\<lambda>m. m \<noteq> abs l \<and> m \<noteq> - abs l)) (filter (\<lambda>c. l \<notin> set c) cnf)
        = map (\<lambda>c. c) (filter (\<lambda>c. l \<notin> set c) cnf)"
  proof (rule map_cong[OF refl])
    fix c assume "c \<in> set (filter (\<lambda>c. l \<notin> set c) cnf)"
    then have "l \<notin> set c" "- l \<notin> set c" using assms by (auto simp: literals_def)
    then have "\<forall>m\<in>set c. m \<noteq> abs l \<and> m \<noteq> - abs l" by (auto simp: abs_if split: if_splits)
    then show "filter (\<lambda>m. m \<noteq> abs l \<and> m \<noteq> - abs l) c = c" by simp
  qed
  then show ?thesis by (simp add: assign_eq satisfies_clause_sign)
qed

definition pure_in :: "(int \<Rightarrow> nat) \<Rightarrow> int \<Rightarrow> bool" where
  "pure_in count literal \<longleftrightarrow> count literal > 0 \<and> count (- literal) = 0"

lemma PureLiteralElimination_loop_fst:
  assumes "\<And>l. count l = 0 \<Longrightarrow> l \<notin> literals cnf"
  shows "fst (PureLiteralElimination_loop ks count cnf asg) =
           filter (\<lambda>c. \<forall>l\<in>set c. \<not> (l \<in> set ks \<and> pure_in count l)) cnf"
  using assms
proof (induction ks arbitrary: cnf asg)
  case Nil
  then show ?case by simp
next
  case (Cons k ks)
  show ?case
  proof (cases "pure_in count k")
    case True
    then have "- k \<notin> literals cnf" using Cons.prems by (simp add: pure_in_def)
    then have eq: "assign cnf (abs k) (k > 0) = filter (\<lambda>c. k \<notin> set c) cnf"
      by (rule assign_pure)
    have "\<And>l. count l = 0 \<Longrightarrow> l \<notin> literals (filter (\<lambda>c. k \<notin> set c) cnf)"
      using Cons.prems by (auto simp: literals_def)
    from Cons.IH[OF this] True show ?thesis
      by (auto simp: eq pure_in_def intro!: filter_cong)
  next
    case False
    with Cons.IH[OF Cons.prems] show ?thesis
      by (auto simp: pure_in_def intro!: filter_cong)
  qed
qed

lemma literalCount_zero: "literalCount cnf l = 0 \<longleftrightarrow> l \<notin> literals cnf"
  by (simp add: literalCount_def literals_def count_list_0_iff)

lemma PureLiteralElimination_fst:
  "fst (PureLiteralElimination cnf asg) =
     filter (\<lambda>c. \<forall>l\<in>set c. \<not> pure_in (literalCount cnf) l) cnf"
  unfolding PureLiteralElimination_def
  by (subst PureLiteralElimination_loop_fst)
     (auto simp: literalCount_zero literals_def intro!: filter_cong)

lemma set_PureLiteralElimination:
  "PureLiteralElimination cnf asg = (cnf2, asg2) \<Longrightarrow> set cnf2 \<subseteq> set cnf"
  using PureLiteralElimination_fst[of cnf asg] by auto

lemma choose_variable_in:
  "\<exists>c\<in>set cnf. c \<noteq> [] \<Longrightarrow> choose_variable cnf \<in> variables cnf"
  by (induction cnf) (auto simp: variables_def literals_def split: list.splits)

lemma choose_variable_nonneg: "0 \<le> choose_variable cnf"
  by (induction cnf) (auto split: list.splits)

lemma card_variables_assign_choose:
  assumes "cnf \<noteq> []" "[] \<notin> set cnf"
  shows "card (variables (assign cnf (choose_variable cnf) b)) < card (variables cnf)"
proof -
  from assms have "\<exists>c\<in>set cnf. c \<noteq> []" by (cases cnf) auto
  then have "choose_variable cnf \<in> variables cnf" by (rule choose_variable_in)
  moreover have "abs (choose_variable cnf) = choose_variable cnf"
    using choose_variable_nonneg[of cnf] by simp
  ultimately have "variables (assign cnf (choose_variable cnf) b) \<subset> variables cnf"
    using variables_assign[of cnf "choose_variable cnf" b] by auto
  then show ?thesis by (simp add: finite_variables psubset_card_mono)
qed

text \<open>
  What makes the search end: between the formula a call receives and the formula it hands
  to either recursive call, the number of distinct variables drops.
\<close>

lemma branch_decreases:
  assumes "UnitPropagation cnf asg = (cnf1, True, asg1)"
    and "PureLiteralElimination cnf1 asg1 = (cnf2, asg2)" and "cnf2 \<noteq> []"
  shows "card (variables (assign cnf2 (choose_variable cnf2) b)) < card (variables cnf)"
proof -
  have "[] \<notin> set cnf2"
    using UnitPropagation_ok_no_empty[OF assms(1)] set_PureLiteralElimination[OF assms(2)] by auto
  then have "card (variables (assign cnf2 (choose_variable cnf2) b)) < card (variables cnf2)"
    using assms(3) by (intro card_variables_assign_choose)
  also have "card (variables cnf2) \<le> card (variables cnf1)"
    by (intro card_mono finite_variables variables_mono set_PureLiteralElimination[OF assms(2)])
  also have "card (variables cnf1) \<le> card (variables cnf)"
    by (intro card_mono finite_variables variables_UnitPropagation[OF assms(1)])
  finally show ?thesis .
qed

termination DPLL
proof (relation "measure (\<lambda>(cnf, asg). card (variables cnf))", goal_cases)
  case 1
  show ?case by simp
next
  case (2 cnf assignment x y xa ya xaa yb xb)
  then have "UnitPropagation cnf assignment = (x, True, ya)"
    and "PureLiteralElimination x ya = (xaa, yb)" and "xaa \<noteq> []"
    by (auto simp: eq_commute[of "(x, y)"] eq_commute[of "(xaa, yb)"])
  from branch_decreases[OF this] 2 show ?case by simp
next
  case (3 cnf assignment x y xa ya xaa yb xb xc yc)
  then have "UnitPropagation cnf assignment = (x, True, ya)"
    and "PureLiteralElimination x ya = (xaa, yb)" and "xaa \<noteq> []"
    by (auto simp: eq_commute[of "(x, y)"] eq_commute[of "(xaa, yb)"])
  from branch_decreases[OF this] 3 show ?case by simp
qed

declare DPLL.simps [simp del]

subsection \<open>Iterative DPLL\<close>

text \<open>
  \<^verbatim>\<open>copyAssignment\<close> starts from an empty map and stores every entry of the original.
\<close>

definition copyAssignment :: "Assignment \<Rightarrow> Assignment" where
  "copyAssignment original = Map.empty ++ original"

text \<open>
  The work stack of \<^verbatim>\<open>iterativeDPLL\<close>. The head of the list is the end of the Go slice,
  so popping takes the head and the two \<^verbatim>\<open>append\<close> calls (false branch, then true branch)
  leave the true branch on top. The second argument is the caller's map, which the loop
  never writes and returns when the stack runs empty.
\<close>

function iterativeDPLL_loop ::
  "(CNF \<times> Assignment) list \<Rightarrow> Assignment \<Rightarrow> bool \<times> Assignment" where
  "iterativeDPLL_loop [] assignment = (False, assignment)"
| "iterativeDPLL_loop ((state_cnf, state_assignment) # stack) assignment =
     (case UnitPropagation state_cnf state_assignment of
        (cnf1, ok, assignment1) \<Rightarrow>
          if \<not> ok then iterativeDPLL_loop stack assignment
          else (case PureLiteralElimination cnf1 assignment1 of
            (cnf2, assignment2) \<Rightarrow>
              if length cnf2 = 0 then (True, assignment2)
              else (let variable = choose_variable cnf2 in
                iterativeDPLL_loop
                  ((assign cnf2 variable True, copyAssignment assignment2) #
                   (assign cnf2 variable False, copyAssignment assignment2) # stack)
                  assignment)))"
  by pat_completeness auto

definition stack_weight :: "(CNF \<times> Assignment) list \<Rightarrow> nat" where
  "stack_weight stack = (\<Sum>(cnf, asg)\<leftarrow>stack. 3 ^ card (variables cnf))"

termination iterativeDPLL_loop
proof (relation "measure (\<lambda>(stack, asg). stack_weight stack)", goal_cases)
  case 1
  show ?case by simp
next
  case (2 state_cnf state_assignment stack assignment x y xa ya)
  then show ?case by (simp add: stack_weight_def)
next
  case (3 state_cnf state_assignment stack assignment x y xa ya xaa yb xb)
  then have "UnitPropagation state_cnf state_assignment = (x, True, ya)"
    and "PureLiteralElimination x ya = (xaa, yb)" and "xaa \<noteq> []"
    by (auto simp: eq_commute[of "(x, y)"] eq_commute[of "(xaa, yb)"])
  note dec = branch_decreases[OF this]
  define n where "n = card (variables state_cnf)"
  have "card (variables (assign xaa xb True)) \<le> n - 1"
    "card (variables (assign xaa xb False)) \<le> n - 1" "0 < n"
    using dec[of True] dec[of False] 3 by (auto simp: n_def)
  then have "(3::nat) ^ card (variables (assign xaa xb True)) \<le> 3 ^ (n - 1)"
    "(3::nat) ^ card (variables (assign xaa xb False)) \<le> 3 ^ (n - 1)"
    "(3::nat) ^ n = 3 * 3 ^ (n - 1)" "(0::nat) < 3 ^ (n - 1)"
    by (auto simp: power_increasing simp flip: power_Suc)
  then have "(3::nat) ^ card (variables (assign xaa xb True)) +
      3 ^ card (variables (assign xaa xb False)) < 3 ^ n"
    by linarith
  then show ?case using 3 by (simp add: stack_weight_def flip: n_def)
qed

declare iterativeDPLL_loop.simps [simp del]

definition iterativeDPLL :: "CNF \<Rightarrow> Assignment \<Rightarrow> bool \<times> Assignment" where
  "iterativeDPLL cnf assignment =
     iterativeDPLL_loop [(cnf, copyAssignment assignment)] assignment"

section \<open>Evaluation on concrete formulas\<close>

text \<open>The defining equations needed to run the solver on a concrete formula.\<close>

lemmas solver_eval = DPLL.simps UnitPropagation_def UnitPropagation_loop.simps
  PureLiteralElimination_def literalCount_def assign_def Let_def iterativeDPLL_def
  iterativeDPLL_loop.simps copyAssignment_def

section \<open>Soundness of the recursive search\<close>

lemma DPLL_conflict:
  "UnitPropagation cnf asg = (cnf1, False, asg1) \<Longrightarrow> DPLL cnf asg = (False, asg1)"
  by (simp add: DPLL.simps[of cnf])

lemma DPLL_empty:
  "UnitPropagation cnf asg = (cnf1, True, asg1) \<Longrightarrow> PureLiteralElimination cnf1 asg1 = ([], asg2)
   \<Longrightarrow> DPLL cnf asg = (True, asg2)"
  by (simp add: DPLL.simps[of cnf])

lemma DPLL_branch:
  "UnitPropagation cnf asg = (cnf1, True, asg1) \<Longrightarrow> PureLiteralElimination cnf1 asg1 = (cnf2, asg2)
   \<Longrightarrow> cnf2 \<noteq> [] \<Longrightarrow>
   DPLL cnf asg =
     (case DPLL (assign cnf2 (choose_variable cnf2) True) (asg2(choose_variable cnf2 \<mapsto> True)) of
        (satisfiable, result) \<Rightarrow>
          if satisfiable then (True, result)
          else DPLL (assign cnf2 (choose_variable cnf2) False) (result(choose_variable cnf2 \<mapsto> False)))"
  by (simp add: DPLL.simps[of cnf] Let_def)

lemma DPLL_induct [case_names conflict empty branch]:
  assumes conflict: "\<And>cnf asg cnf1 asg1. UnitPropagation cnf asg = (cnf1, False, asg1) \<Longrightarrow> P cnf asg"
    and empty: "\<And>cnf asg cnf1 asg1 asg2. UnitPropagation cnf asg = (cnf1, True, asg1) \<Longrightarrow>
        PureLiteralElimination cnf1 asg1 = ([], asg2) \<Longrightarrow> P cnf asg"
    and branch: "\<And>cnf asg cnf1 asg1 cnf2 asg2 v.
        UnitPropagation cnf asg = (cnf1, True, asg1) \<Longrightarrow>
        PureLiteralElimination cnf1 asg1 = (cnf2, asg2) \<Longrightarrow> cnf2 \<noteq> [] \<Longrightarrow>
        v = choose_variable cnf2 \<Longrightarrow>
        P (assign cnf2 v True) (asg2(v \<mapsto> True)) \<Longrightarrow>
        (\<And>r. DPLL (assign cnf2 v True) (asg2(v \<mapsto> True)) = (False, r) \<Longrightarrow>
              P (assign cnf2 v False) (r(v \<mapsto> False))) \<Longrightarrow>
        P cnf asg"
  shows "P cnf asg"
proof (induct cnf asg rule: DPLL.induct)
  case (1 cnf asg)
  obtain cnf1 ok asg1 where up: "UnitPropagation cnf asg = (cnf1, ok, asg1)"
    by (cases "UnitPropagation cnf asg") auto
  obtain cnf2 asg2 where ple: "PureLiteralElimination cnf1 asg1 = (cnf2, asg2)"
    by (cases "PureLiteralElimination cnf1 asg1") auto
  show ?case
  proof (cases ok)
    case False
    with up show ?thesis by (auto intro: conflict)
  next
    case True
    with up have up': "UnitPropagation cnf asg = (cnf1, True, asg1)" by simp
    note ok = True
    show ?thesis
    proof (cases "cnf2 = []")
      case True
      with up' ple show ?thesis by (auto intro: empty[of cnf asg cnf1 asg1 asg2])
    next
      case False
      define v where "v = choose_variable cnf2"
      have h1: "P (assign cnf2 v True) (asg2(v \<mapsto> True))"
        by (rule 1(1)[OF up[symmetric] refl _ ple[symmetric]]) (use ok False v_def in auto)
      have h2: "P (assign cnf2 v False) (r(v \<mapsto> False))"
        if "DPLL (assign cnf2 v True) (asg2(v \<mapsto> True)) = (False, r)" for r
        by (rule 1(2)[OF up[symmetric] refl _ ple[symmetric] _ _ that[symmetric]])
           (use ok False v_def in auto)
      from up' ple False v_def h1 h2 show ?thesis by (rule branch)
    qed
  qed
qed

definition literal_true :: "Assignment \<Rightarrow> int \<Rightarrow> bool" where
  "literal_true M literal \<longleftrightarrow>
     literal > 0 \<and> M (abs literal) = Some True \<or> literal < 0 \<and> M (abs literal) = Some False"

definition satisfies :: "Assignment \<Rightarrow> CNF \<Rightarrow> bool" where
  "satisfies M F \<longleftrightarrow> (\<forall>clause\<in>set F. \<exists>literal\<in>set clause. literal_true M literal)"

definition refines :: "CNF \<Rightarrow> Assignment \<Rightarrow> CNF \<Rightarrow> Assignment \<Rightarrow> bool" where
  "refines cnf asg cnf' asg' \<longleftrightarrow>
     literals cnf' \<subseteq> literals cnf \<and>
     (\<forall>x. x \<notin> variables cnf \<longrightarrow> asg' x = asg x) \<and>
     (\<forall>M. (\<forall>x\<in>variables cnf. x \<notin> variables cnf' \<longrightarrow> M x = asg' x) \<longrightarrow>
          satisfies M cnf' \<longrightarrow> satisfies M cnf)"

lemma variables_literals_mono: "literals cnf' \<subseteq> literals cnf \<Longrightarrow> variables cnf' \<subseteq> variables cnf"
  by (auto simp: variables_def)

lemma refines_refl: "refines cnf asg cnf asg"
  by (simp add: refines_def)

lemma refines_trans:
  assumes "refines cnf asg cnf1 asg1" "refines cnf1 asg1 cnf2 asg2"
  shows "refines cnf asg cnf2 asg2"
proof -
  have "literals cnf1 \<subseteq> literals cnf" "literals cnf2 \<subseteq> literals cnf1"
    using assms by (simp_all add: refines_def)
  then have v1: "variables cnf1 \<subseteq> variables cnf" and v2: "variables cnf2 \<subseteq> variables cnf1"
    by (simp_all add: variables_literals_mono)
  have "satisfies M cnf"
    if M: "\<forall>x\<in>variables cnf. x \<notin> variables cnf2 \<longrightarrow> M x = asg2 x" and s: "satisfies M cnf2" for M
  proof -
    have "\<forall>x\<in>variables cnf1. x \<notin> variables cnf2 \<longrightarrow> M x = asg2 x" using M v1 by blast
    with s assms(2) have s1: "satisfies M cnf1" by (simp add: refines_def)
    have "\<forall>x\<in>variables cnf. x \<notin> variables cnf1 \<longrightarrow> M x = asg1 x"
      using M v2 assms(2) by (auto simp: refines_def)
    with s1 assms(1) show ?thesis by (simp add: refines_def)
  qed
  moreover have "\<forall>x. x \<notin> variables cnf \<longrightarrow> asg2 x = asg x"
    using assms v1 by (auto simp: refines_def)
  moreover have "literals cnf2 \<subseteq> literals cnf" using assms by (auto simp: refines_def)
  ultimately show ?thesis by (simp add: refines_def)
qed

lemma satisfies_assign_back:
  assumes "0 \<notin> literals cnf" "0 \<le> x" "x \<in> variables cnf \<longrightarrow> M x = Some b"
    and "satisfies M (assign cnf x b)"
  shows "satisfies M cnf"
  unfolding satisfies_def
proof
  fix c assume c: "c \<in> set cnf"
  show "\<exists>l\<in>set c. literal_true M l"
  proof (cases "satisfies_clause c x b")
    case True
    then obtain l where l: "l \<in> set c" "l = x \<and> b \<or> l = - x \<and> \<not> b"
      by (auto simp: satisfies_clause_def)
    then have "l \<in> literals cnf" using c by (auto simp: literals_def)
    then have "l \<noteq> 0" "abs l \<in> variables cnf" using assms(1) by (auto simp: variables_def)
    moreover from l(2) assms(2) have "abs l = x" by auto
    ultimately have "literal_true M l" using l(2) assms(2,3)
      by (auto simp: literal_true_def)
    with l(1) show ?thesis by blast
  next
    case False
    then have "filter (\<lambda>l. l \<noteq> x \<and> l \<noteq> - x) c \<in> set (assign cnf x b)"
      using c by (auto simp: assign_eq)
    with assms(4) show ?thesis by (fastforce simp: satisfies_def)
  qed
qed

lemma refines_assign:
  assumes "0 \<notin> literals cnf" "x \<in> variables cnf"
  shows "refines cnf asg (assign cnf x b) (asg(x \<mapsto> b))"
proof -
  have x0: "0 \<le> x" using assms(2) by (auto simp: variables_def)
  have x: "x \<notin> variables (assign cnf x b)"
    using variables_assign[of cnf x b] x0 by auto
  have "satisfies M cnf"
    if "\<forall>y\<in>variables cnf. y \<notin> variables (assign cnf x b) \<longrightarrow> M y = (asg(x \<mapsto> b)) y"
      and "satisfies M (assign cnf x b)" for M
    using that x assms by (intro satisfies_assign_back[OF assms(1) x0 _ that(2)]) auto
  then show ?thesis
    using literals_assign[of cnf x b] assms(2) by (auto simp: refines_def)
qed

lemma refines_UnitPropagation_loop:
  "0 \<notin> literals cnf \<Longrightarrow>
   refines cnf asg (fst (UnitPropagation_loop cnf asg)) (snd (UnitPropagation_loop cnf asg))"
proof (induct cnf asg rule: UnitPropagation_loop_induct)
  case (None cnf asg)
  then show ?case by (simp add: UnitPropagation_loop_None refines_refl)
next
  case (Some cnf asg u)
  have "abs u \<in> variables cnf"
    using find_unit_Some[OF Some.hyps(1)] by (force simp: variables_def literals_def)
  then have 1: "refines cnf asg (assign cnf (abs u) (u > 0)) (asg(abs u \<mapsto> u > 0))"
    using Some.prems by (intro refines_assign)
  have "0 \<notin> literals (assign cnf (abs u) (u > 0))"
    using Some.prems literals_assign[of cnf "abs u" "u > 0"] by auto
  from refines_trans[OF 1 Some.hyps(2)[OF this]] show ?case
    by (simp only: UnitPropagation_loop_Some[OF Some.hyps(1)])
qed

lemma PureLiteralElimination_loop_snd:
  "snd (PureLiteralElimination_loop ks count cnf asg) x =
     (if 0 < x \<and> x \<in> set ks \<and> pure_in count x then Some True
      else if 0 < x \<and> - x \<in> set ks \<and> pure_in count (- x) then Some False
      else asg x)"
proof (induction ks arbitrary: cnf asg)
  case Nil
  then show ?case by simp
next
  case (Cons k ks)
  show ?case
  proof (cases "pure_in count k")
    case True
    then have k0: "k \<noteq> 0" and nk: "\<not> pure_in count (- k)" by (auto simp: pure_in_def)
    have "snd (PureLiteralElimination_loop (k # ks) count cnf asg) x =
          snd (PureLiteralElimination_loop ks count (assign cnf (abs k) (k > 0))
                 (asg(abs k \<mapsto> k > 0))) x"
    proof -
      from True have "0 < count k \<and> count (- k) = 0" by (simp add: pure_in_def)
      then show ?thesis by (simp only: PureLiteralElimination_loop.simps simp_thms if_True)
    qed
    also have "\<dots> =
       (if 0 < x \<and> x \<in> set ks \<and> pure_in count x then Some True
        else if 0 < x \<and> - x \<in> set ks \<and> pure_in count (- x) then Some False
        else (asg(abs k \<mapsto> k > 0)) x)"
      by (rule Cons.IH)
    also have "\<dots> =
       (if 0 < x \<and> x \<in> set (k # ks) \<and> pure_in count x then Some True
        else if 0 < x \<and> - x \<in> set (k # ks) \<and> pure_in count (- x) then Some False
        else asg x)"
      using True k0 nk by (cases "0 < k"; cases "x = k"; cases "x = - k") auto
    finally show ?thesis .
  next
    case False
    have "snd (PureLiteralElimination_loop (k # ks) count cnf asg) x =
          snd (PureLiteralElimination_loop ks count cnf asg) x"
    proof -
      from False have "\<not> (0 < count k \<and> count (- k) = 0)" by (simp add: pure_in_def)
      then show ?thesis by (simp only: PureLiteralElimination_loop.simps simp_thms if_False)
    qed
    also have "\<dots> =
       (if 0 < x \<and> x \<in> set ks \<and> pure_in count x then Some True
        else if 0 < x \<and> - x \<in> set ks \<and> pure_in count (- x) then Some False
        else asg x)"
      by (rule Cons.IH)
    also have "\<dots> =
       (if 0 < x \<and> x \<in> set (k # ks) \<and> pure_in count x then Some True
        else if 0 < x \<and> - x \<in> set (k # ks) \<and> pure_in count (- x) then Some False
        else asg x)"
      using False by auto
    finally show ?thesis .
  qed
qed

lemma literalCount_pos: "0 < literalCount cnf l \<longleftrightarrow> l \<in> literals cnf"
  using literalCount_zero[of cnf l] by auto

lemma pure_in_literals:
  "pure_in (literalCount cnf) l \<longleftrightarrow> l \<in> literals cnf \<and> - l \<notin> literals cnf"
  by (simp add: pure_in_def literalCount_zero literalCount_pos)

lemma literals_concat: "literals cnf = set (concat cnf)"
  by (simp add: literals_def)

lemma PureLiteralElimination_snd:
  "snd (PureLiteralElimination cnf asg) x =
     (if 0 < x \<and> pure_in (literalCount cnf) x then Some True
      else if 0 < x \<and> pure_in (literalCount cnf) (- x) then Some False
      else asg x)"
proof -
  have "pure_in (literalCount cnf) l \<Longrightarrow> l \<in> set (concat cnf)" for l
    by (simp add: pure_in_literals literals_concat)
  then show ?thesis
    unfolding PureLiteralElimination_def PureLiteralElimination_loop_snd by auto
qed

text \<open>The result of the loop depends on the set of keys only, not on their order.\<close>

lemma PureLiteralElimination_order:
  assumes "set ks = set (concat cnf)"
  shows "PureLiteralElimination_loop ks (literalCount cnf) cnf asg = PureLiteralElimination cnf asg"
proof (rule prod_eqI)
  have z: "\<And>l. literalCount cnf l = 0 \<Longrightarrow> l \<notin> literals cnf" by (simp add: literalCount_zero)
  show "fst (PureLiteralElimination_loop ks (literalCount cnf) cnf asg)
         = fst (PureLiteralElimination cnf asg)"
    unfolding PureLiteralElimination_def
    by (simp add: PureLiteralElimination_loop_fst[OF z] assms)
  show "snd (PureLiteralElimination_loop ks (literalCount cnf) cnf asg)
         = snd (PureLiteralElimination cnf asg)"
  proof (rule ext)
    fix x
    have "pure_in (literalCount cnf) l \<Longrightarrow> l \<in> set (concat cnf)" for l
      by (simp add: pure_in_literals literals_concat)
    then show "snd (PureLiteralElimination_loop ks (literalCount cnf) cnf asg) x
         = snd (PureLiteralElimination cnf asg) x"
      unfolding PureLiteralElimination_snd PureLiteralElimination_loop_snd assms by auto
  qed
qed

lemma refines_PureLiteralElimination:
  assumes "0 \<notin> literals cnf"
  shows "refines cnf asg (fst (PureLiteralElimination cnf asg)) (snd (PureLiteralElimination cnf asg))"
proof -
  let ?cnf' = "fst (PureLiteralElimination cnf asg)" and ?asg' = "snd (PureLiteralElimination cnf asg)"
  have sub: "set ?cnf' \<subseteq> set cnf" by (simp add: PureLiteralElimination_fst)
  then have lit: "literals ?cnf' \<subseteq> literals cnf" by (auto simp: literals_def)
  have frame: "?asg' x = asg x" if "x \<notin> variables cnf" for x
  proof -
    have "x \<notin> literals cnf" "- x \<notin> literals cnf" if "0 < x"
      using \<open>x \<notin> variables cnf\<close> that by (force simp: variables_def)+
    then show ?thesis by (auto simp: PureLiteralElimination_snd pure_in_literals)
  qed
  have sat: "satisfies M cnf"
    if M: "\<forall>x\<in>variables cnf. x \<notin> variables ?cnf' \<longrightarrow> M x = ?asg' x" and s: "satisfies M ?cnf'" for M
    unfolding satisfies_def
  proof
    fix c assume c: "c \<in> set cnf"
    show "\<exists>l\<in>set c. literal_true M l"
    proof (cases "c \<in> set ?cnf'")
      case True
      with s show ?thesis by (simp add: satisfies_def)
    next
      case False
      with c obtain l where l: "l \<in> set c" "pure_in (literalCount cnf) l"
        by (auto simp: PureLiteralElimination_fst)
      then have lin: "l \<in> literals cnf" "- l \<notin> literals cnf" by (simp_all add: pure_in_literals)
      then have l0: "l \<noteq> 0" using assms by auto
      have "l \<notin> literals ?cnf'" using l(2) by (auto simp: PureLiteralElimination_fst literals_def)
      moreover have "- l \<notin> literals ?cnf'" using lin lit by auto
      ultimately have "abs l \<notin> variables ?cnf'" by (auto simp: variables_def abs_if split: if_splits)
      moreover have "abs l \<in> variables cnf" using lin by (auto simp: variables_def)
      ultimately have "M (abs l) = ?asg' (abs l)" using M by blast
      also have "\<dots> = Some (l > 0)"
        using l(2) l0 lin by (cases "l > 0") (auto simp: PureLiteralElimination_snd pure_in_literals)
      finally have "literal_true M l" using l0 by (auto simp: literal_true_def)
      with l(1) show ?thesis by blast
    qed
  qed
  from lit frame sat show ?thesis by (simp add: refines_def)
qed

lemma refines_simplify:
  assumes "0 \<notin> literals cnf" "UnitPropagation cnf asg = (cnf1, ok, asg1)"
    "PureLiteralElimination cnf1 asg1 = (cnf2, asg2)"
  shows "refines cnf asg cnf1 asg1" "refines cnf asg cnf2 asg2" "0 \<notin> literals cnf2"
proof -
  from assms(2) have eq: "cnf1 = fst (UnitPropagation_loop cnf asg)" "asg1 = snd (UnitPropagation_loop cnf asg)"
    by (auto simp: UnitPropagation_def split: prod.splits)
  show 1: "refines cnf asg cnf1 asg1"
    unfolding eq by (rule refines_UnitPropagation_loop[OF assms(1)])
  then have 0: "0 \<notin> literals cnf1" using assms(1) by (auto simp: refines_def)
  from refines_PureLiteralElimination[OF this, of asg1] assms(3)
  have 2: "refines cnf1 asg1 cnf2 asg2" by simp
  from refines_trans[OF 1 2] show "refines cnf asg cnf2 asg2" .
  from 2 0 show "0 \<notin> literals cnf2" by (auto simp: refines_def)
qed

definition outcome_ok :: "CNF \<Rightarrow> Assignment \<Rightarrow> bool \<times> Assignment \<Rightarrow> bool" where
  "outcome_ok cnf asg r \<longleftrightarrow>
     (\<forall>x. x \<notin> variables cnf \<longrightarrow> snd r x = asg x) \<and> (fst r \<longrightarrow> satisfies (snd r) cnf)"

lemma outcome_ok_refines:
  assumes "refines cnf asg cnf' asg'" "outcome_ok cnf' asg' r"
  shows "outcome_ok cnf asg r"
proof -
  have v: "variables cnf' \<subseteq> variables cnf"
    using assms(1) by (simp add: refines_def variables_literals_mono)
  have frame': "\<forall>x. x \<notin> variables cnf' \<longrightarrow> snd r x = asg' x"
    using assms(2) by (simp add: outcome_ok_def)
  then have "\<forall>x. x \<notin> variables cnf \<longrightarrow> snd r x = asg x"
    using assms(1) v by (auto simp: refines_def)
  moreover have "satisfies (snd r) cnf" if "fst r"
  proof -
    from that assms(2) have "satisfies (snd r) cnf'" by (simp add: outcome_ok_def)
    with frame' assms(1) show ?thesis by (simp add: refines_def)
  qed
  ultimately show ?thesis by (simp add: outcome_ok_def)
qed

lemma DPLL_outcome_ok: "0 \<notin> literals cnf \<Longrightarrow> outcome_ok cnf asg (DPLL cnf asg)"
proof (induct cnf asg rule: DPLL_induct)
  case (conflict cnf asg cnf1 asg1)
  obtain cnf2 asg2 where "PureLiteralElimination cnf1 asg1 = (cnf2, asg2)"
    by (cases "PureLiteralElimination cnf1 asg1") auto
  from refines_simplify(1)[OF conflict.prems conflict.hyps this]
  have "refines cnf asg cnf1 asg1" .
  moreover have "outcome_ok cnf1 asg1 (False, asg1)" by (simp add: outcome_ok_def)
  ultimately show ?case
    by (simp only: DPLL_conflict[OF conflict.hyps] outcome_ok_refines)
next
  case (empty cnf asg cnf1 asg1 asg2)
  from refines_simplify(2)[OF empty.prems empty.hyps]
  have "refines cnf asg [] asg2" .
  moreover have "outcome_ok [] asg2 (True, asg2)" by (simp add: outcome_ok_def satisfies_def)
  ultimately show ?case
    by (simp only: DPLL_empty[OF empty.hyps] outcome_ok_refines)
next
  case (branch cnf asg cnf1 asg1 cnf2 asg2 v)
  note simp = refines_simplify[OF branch.prems branch.hyps(1,2)]
  have ne: "[] \<notin> set cnf2"
    using UnitPropagation_ok_no_empty[OF branch.hyps(1)] set_PureLiteralElimination[OF branch.hyps(2)]
    by auto
  with branch.hyps(3) have "\<exists>c\<in>set cnf2. c \<noteq> []" by (cases cnf2) auto
  then have v: "v \<in> variables cnf2" unfolding branch.hyps(4) by (rule choose_variable_in)
  have zT: "0 \<notin> literals (assign cnf2 v True)" and zF: "0 \<notin> literals (assign cnf2 v False)"
    using simp(3) literals_assign[of cnf2 v] by auto
  let ?r1 = "DPLL (assign cnf2 v True) (asg2(v \<mapsto> True))"
  have ok1: "outcome_ok (assign cnf2 v True) (asg2(v \<mapsto> True)) ?r1"
    by (rule branch.hyps(5)[OF zT])
  have unfold: "DPLL cnf asg =
     (case ?r1 of (satisfiable, result) \<Rightarrow>
        if satisfiable then (True, result)
        else DPLL (assign cnf2 v False) (result(v \<mapsto> False)))"
    unfolding branch.hyps(4) by (rule DPLL_branch[OF branch.hyps(1,2,3)])
  have "outcome_ok cnf2 asg2 (DPLL cnf asg)"
  proof (cases "fst ?r1")
    case True
    then obtain r where "?r1 = (True, r)" by (cases ?r1) auto
    then have "DPLL cnf asg = ?r1" by (simp add: unfold)
    with outcome_ok_refines[OF refines_assign[OF simp(3) v] ok1] show ?thesis by simp
  next
    case False
    then obtain r where r: "?r1 = (False, r)" by (cases ?r1) auto
    let ?r2 = "DPLL (assign cnf2 v False) (r(v \<mapsto> False))"
    have eq: "DPLL cnf asg = ?r2" by (simp add: unfold r)
    have "outcome_ok (assign cnf2 v False) (r(v \<mapsto> False)) ?r2"
      by (rule branch.hyps(6)[OF r zF])
    from outcome_ok_refines[OF refines_assign[OF simp(3) v] this]
    have ok2: "outcome_ok cnf2 r ?r2" .
    have "r x = asg2 x" if "x \<notin> variables cnf2" for x
    proof -
      from that v have "x \<noteq> v" by auto
      moreover from that have "x \<notin> variables (assign cnf2 v True)"
        using variables_assign_sub[of cnf2 v True] by auto
      ultimately show ?thesis using ok1 by (simp add: outcome_ok_def r)
    qed
    with ok2 show ?thesis by (simp add: outcome_ok_def eq)
  qed
  from outcome_ok_refines[OF simp(2) this] show ?case .
qed

lemma DPLL_sound:
  assumes "0 \<notin> literals F" "DPLL F A = (True, M)"
  shows "satisfies M F"
  using DPLL_outcome_ok[OF assms(1), of A] assms(2) by (simp add: outcome_ok_def)

section \<open>Completeness of the recursive search\<close>

lemma satisfies_assign_forward:
  assumes "0 < x" "M x = Some b" "satisfies M cnf"
  shows "satisfies M (assign cnf x b)"
  unfolding satisfies_def
proof
  fix c' assume "c' \<in> set (assign cnf x b)"
  then obtain c where c: "c \<in> set cnf" "\<not> satisfies_clause c x b"
    and c': "c' = filter (\<lambda>l. l \<noteq> x \<and> l \<noteq> - x) c"
    by (auto simp: assign_eq)
  from assms(3) c(1) obtain l where l: "l \<in> set c" "literal_true M l"
    by (auto simp: satisfies_def)
  have "l \<noteq> x"
  proof
    assume "l = x"
    with l(2) assms(1,2) have "b" by (auto simp: literal_true_def)
    with \<open>l = x\<close> l(1) c(2) show False by (auto simp: satisfies_clause_def)
  qed
  moreover have "l \<noteq> - x"
  proof
    assume "l = - x"
    with l(2) assms(1,2) have "\<not> b" by (auto simp: literal_true_def)
    with \<open>l = - x\<close> l(1) c(2) show False by (auto simp: satisfies_clause_def)
  qed
  ultimately have "l \<in> set c'" using l(1) by (simp add: c')
  with l(2) show "\<exists>l\<in>set c'. literal_true M l" by blast
qed

lemma satisfies_UnitPropagation_loop:
  "satisfies M cnf \<Longrightarrow> satisfies M (fst (UnitPropagation_loop cnf asg))"
proof (induct cnf asg rule: UnitPropagation_loop_induct)
  case (None cnf asg)
  then show ?case by (simp add: UnitPropagation_loop_None)
next
  case (Some cnf asg u)
  from find_unit_Some[OF Some.hyps(1)] Some.prems have "literal_true M u"
    by (fastforce simp: satisfies_def)
  then have "0 < abs u" "M (abs u) = Some (u > 0)" by (auto simp: literal_true_def)
  from satisfies_assign_forward[OF this Some.prems]
  have "satisfies M (fst (UnitPropagation_loop (assign cnf (abs u) (u > 0)) (asg(abs u \<mapsto> u > 0))))"
    by (rule Some.hyps(2))
  then show ?case by (simp only: UnitPropagation_loop_Some[OF Some.hyps(1)])
qed

lemma satisfies_subset: "satisfies M cnf \<Longrightarrow> set cnf' \<subseteq> set cnf \<Longrightarrow> satisfies M cnf'"
  by (auto simp: satisfies_def)

lemma satisfies_simplify:
  assumes "satisfies M cnf" "UnitPropagation cnf asg = (cnf1, ok, asg1)"
    "PureLiteralElimination cnf1 asg1 = (cnf2, asg2)"
  shows "ok" "satisfies M cnf2"
proof -
  from assms(2) have eq: "cnf1 = fst (UnitPropagation_loop cnf asg)"
    and ok: "ok \<longleftrightarrow> [] \<notin> set cnf1"
    by (auto simp: UnitPropagation_def split: prod.splits)
  have s1: "satisfies M cnf1" unfolding eq by (rule satisfies_UnitPropagation_loop[OF assms(1)])
  then show "ok" unfolding ok by (auto simp: satisfies_def)
  from s1 set_PureLiteralElimination[OF assms(3)] show "satisfies M cnf2"
    by (rule satisfies_subset)
qed

lemma DPLL_complete_total:
  assumes total: "\<And>x. M x \<noteq> None"
  shows "0 \<notin> literals cnf \<Longrightarrow> satisfies M cnf \<Longrightarrow> fst (DPLL cnf asg)"
proof (induct cnf asg rule: DPLL_induct)
  case (conflict cnf asg cnf1 asg1)
  obtain cnf2 asg2 where "PureLiteralElimination cnf1 asg1 = (cnf2, asg2)"
    by (cases "PureLiteralElimination cnf1 asg1") auto
  from satisfies_simplify(1)[OF conflict.prems(2) conflict.hyps this] show ?case by simp
next
  case (empty cnf asg cnf1 asg1 asg2)
  then show ?case by (simp add: DPLL_empty[OF empty.hyps])
next
  case (branch cnf asg cnf1 asg1 cnf2 asg2 v)
  have s2: "satisfies M cnf2"
    by (rule satisfies_simplify(2)[OF branch.prems(2) branch.hyps(1,2)])
  have z2: "0 \<notin> literals cnf2"
    by (rule refines_simplify(3)[OF branch.prems(1) branch.hyps(1,2)])
  have zT: "0 \<notin> literals (assign cnf2 v True)" and zF: "0 \<notin> literals (assign cnf2 v False)"
    using z2 literals_assign[of cnf2 v] by auto
  have ne: "[] \<notin> set cnf2" using s2 by (auto simp: satisfies_def)
  with branch.hyps(3) have "\<exists>c\<in>set cnf2. c \<noteq> []" by (cases cnf2) auto
  then have "v \<in> variables cnf2" unfolding branch.hyps(4) by (rule choose_variable_in)
  then obtain l where "l \<in> literals cnf2" "v = abs l" by (auto simp: variables_def)
  moreover from this z2 have "l \<noteq> 0" by auto
  ultimately have v0: "0 < v" by simp
  let ?r1 = "DPLL (assign cnf2 v True) (asg2(v \<mapsto> True))"
  have unfold: "DPLL cnf asg =
     (case ?r1 of (satisfiable, result) \<Rightarrow>
        if satisfiable then (True, result)
        else DPLL (assign cnf2 v False) (result(v \<mapsto> False)))"
    unfolding branch.hyps(4) by (rule DPLL_branch[OF branch.hyps(1,2,3)])
  show ?case
  proof (cases "fst ?r1")
    case True
    then obtain r where "?r1 = (True, r)" by (cases ?r1) auto
    then show ?thesis by (simp add: unfold)
  next
    case False
    then obtain r where r: "?r1 = (False, r)" by (cases ?r1) auto
    have "M v \<noteq> Some True"
    proof
      assume "M v = Some True"
      from satisfies_assign_forward[OF v0 this s2] have "fst ?r1" by (rule branch.hyps(5)[OF zT])
      with False show False ..
    qed
    with total[of v] have "M v = Some False" by (cases "M v") auto
    from satisfies_assign_forward[OF v0 this s2]
    have "fst (DPLL (assign cnf2 v False) (r(v \<mapsto> False)))" by (rule branch.hyps(6)[OF r zF])
    then show ?thesis by (simp add: unfold r)
  qed
qed

subsection \<open>Brute-force truth tables\<close>

text \<open>
  The reference the verdict is compared with: every assignment of truth values to the
  variables that occur in \<open>F\<close>, one per sublist of the list of variables (the variables in
  the sublist are true, the others false), and the test whether one of them makes a literal
  true in every clause.
\<close>

definition truth_table :: "CNF \<Rightarrow> Assignment list" where
  "truth_table F =
     (let vs = remdups (map abs (concat F))
      in map (\<lambda>trues x. if x \<in> set vs then Some (x \<in> set trues) else None) (subseqs vs))"

definition truth_table_sat :: "CNF \<Rightarrow> bool" where
  "truth_table_sat F = list_ex (\<lambda>M. satisfies M F) (truth_table F)"

lemma filter_in_subseqs: "filter P xs \<in> set (subseqs xs)"
  by (induction xs) (auto simp: Let_def)

lemma truth_table_sat_iff: "truth_table_sat F \<longleftrightarrow> (\<exists>M. satisfies M F)"
proof
  assume "truth_table_sat F"
  then show "\<exists>M. satisfies M F" by (auto simp: truth_table_sat_def list_ex_iff)
next
  assume "\<exists>M. satisfies M F"
  then obtain M where M: "satisfies M F" ..
  define vs where "vs = remdups (map abs (concat F))"
  define trues where "trues = filter (\<lambda>x. M x = Some True) vs"
  define M' :: Assignment where "M' = (\<lambda>x. if x \<in> set vs then Some (x \<in> set trues) else None)"
  have "trues \<in> set (subseqs vs)" unfolding trues_def by (rule filter_in_subseqs)
  then have "M' \<in> set (truth_table F)"
    unfolding truth_table_def Let_def M'_def vs_def[symmetric] set_map by (rule imageI)
  moreover have "satisfies M' F"
    unfolding satisfies_def
  proof
    fix c assume c: "c \<in> set F"
    with M obtain l where l: "l \<in> set c" "literal_true M l" by (auto simp: satisfies_def)
    with c have "abs l \<in> set vs" by (auto simp: vs_def)
    with l(2) have "literal_true M' l" by (auto simp: literal_true_def M'_def trues_def)
    with l(1) show "\<exists>l\<in>set c. literal_true M' l" ..
  qed
  ultimately show "truth_table_sat F" by (auto simp: truth_table_sat_def list_ex_iff)
qed

lemma DPLL_verdict:
  assumes "0 \<notin> literals F"
  shows "fst (DPLL F A) \<longleftrightarrow> (\<exists>M. satisfies M F)"
proof
  assume "fst (DPLL F A)"
  then obtain M where "DPLL F A = (True, M)" by (cases "DPLL F A") auto
  from DPLL_sound[OF assms this] show "\<exists>M. satisfies M F" by blast
next
  assume "\<exists>M. satisfies M F"
  then obtain M where M: "satisfies M F" ..
  define M' :: Assignment where "M' = (\<lambda>x. Some (M x = Some True))"
  have "literal_true M' l" if "literal_true M l" for l
    using that by (auto simp: literal_true_def M'_def)
  with M have "satisfies M' F" by (fastforce simp: satisfies_def)
  moreover have "\<And>x. M' x \<noteq> None" by (simp add: M'_def)
  ultimately show "fst (DPLL F A)" using assms by (intro DPLL_complete_total[of M'])
qed

text \<open>
  Claim C2. For a clause set \<open>F\<close> of the data model (no literal is 0) over at most 16
  distinct variables, \<^verbatim>\<open>DPLL(F, {})\<close> answers satisfiable if and only if brute-force
  evaluation of the truth table finds an assignment that makes a literal true in every
  clause.
\<close>

theorem DPLL_complete_small:
  assumes "0 \<notin> literals F" and "card (variables F) \<le> 16"
  shows "fst (DPLL F Map.empty) \<longleftrightarrow> truth_table_sat F"
  using DPLL_verdict[OF assms(1)] by (simp add: truth_table_sat_iff)

lemma card_variables_le: "card (variables F) \<le> length (concat F)"
proof -
  have "variables F = set (map abs (concat F))" by (simp add: variables_def literals_def)
  then show ?thesis using card_length[of "map abs (concat F)"] by simp
qed

theorem DPLL_complete_small_witness:
  "0 \<notin> literals [[1, 2], [- 1, - 2]] \<and> card (variables [[1, 2], [- 1, - 2]]) \<le> 16
   \<and> fst (DPLL [[1, 2], [- 1, - 2]] Map.empty) \<and> truth_table_sat [[1, 2], [- 1, - 2]]
   \<and> 0 \<notin> literals [[1], [- 1]] \<and> card (variables [[1], [- 1]]) \<le> 16
   \<and> \<not> fst (DPLL [[1], [- 1]] Map.empty) \<and> \<not> truth_table_sat [[1], [- 1]]"
proof -
  have a: "0 \<notin> literals [[1, 2], [- 1, - 2]]" and c: "0 \<notin> literals [[1], [- 1]]"
    by (simp_all add: literals_def)
  have b: "card (variables [[1, 2], [- 1, - 2]]) \<le> 16"
    using card_variables_le[of "[[1, 2], [- 1, - 2]]"] by simp
  have d: "card (variables [[1], [- 1]]) \<le> 16"
    using card_variables_le[of "[[1], [- 1]]"] by simp
  have e: "fst (DPLL [[1, 2], [- 1, - 2]] Map.empty)" and f: "\<not> fst (DPLL [[1], [- 1]] Map.empty)"
    by (simp_all add: solver_eval)
  from DPLL_complete_small[OF a b] DPLL_complete_small[OF c d] a b c d e f
  show ?thesis by simp
qed

section \<open>Termination and depth of the recursive search\<close>

text \<open>
  \<open>DPLL\<close> above is total: its termination proof rests on \<open>branch_decreases\<close>. To
  speak about the depth of the recursion, \<open>DPLL_fuel\<close> is the same function with a bound
  on the number of nested calls; it is \<open>None\<close> when the bound is exceeded.
\<close>

fun DPLL_fuel :: "nat \<Rightarrow> CNF \<Rightarrow> Assignment \<Rightarrow> (bool \<times> Assignment) option" where
  "DPLL_fuel 0 cnf assignment = None"
| "DPLL_fuel (Suc n) cnf assignment =
     (case UnitPropagation cnf assignment of
        (cnf1, ok, assignment1) \<Rightarrow>
          if \<not> ok then Some (False, assignment1)
          else (case PureLiteralElimination cnf1 assignment1 of
            (cnf2, assignment2) \<Rightarrow>
              if length cnf2 = 0 then Some (True, assignment2)
              else (let variable = choose_variable cnf2 in
                case DPLL_fuel n (assign cnf2 variable True) (assignment2(variable \<mapsto> True)) of
                  None \<Rightarrow> None
                | Some (satisfiable, result) \<Rightarrow>
                    if satisfiable then Some (True, result)
                    else DPLL_fuel n (assign cnf2 variable False) (result(variable \<mapsto> False)))))"

lemma DPLL_fuel_enough:
  "card (variables cnf) < n \<Longrightarrow> DPLL_fuel n cnf asg = Some (DPLL cnf asg)"
proof (induction n arbitrary: cnf asg)
  case 0
  then show ?case by simp
next
  case (Suc n)
  obtain cnf1 ok asg1 where up: "UnitPropagation cnf asg = (cnf1, ok, asg1)"
    by (cases "UnitPropagation cnf asg") auto
  obtain cnf2 asg2 where ple: "PureLiteralElimination cnf1 asg1 = (cnf2, asg2)"
    by (cases "PureLiteralElimination cnf1 asg1") auto
  show ?case
  proof (cases ok)
    case False
    with up show ?thesis by (simp add: DPLL_conflict)
  next
    case True
    with up have up': "UnitPropagation cnf asg = (cnf1, True, asg1)" by simp
    show ?thesis
    proof (cases "cnf2 = []")
      case True
      with up' ple show ?thesis by (simp add: DPLL_empty[of cnf asg cnf1 asg1 asg2])
    next
      case False
      define v where "v = choose_variable cnf2"
      have less: "card (variables (assign cnf2 v b)) < n" for b
        using branch_decreases[OF up' ple False, of b] Suc.prems by (simp add: v_def)
      have T: "DPLL_fuel n (assign cnf2 v True) (asg2(v \<mapsto> True))
                 = Some (DPLL (assign cnf2 v True) (asg2(v \<mapsto> True)))"
        by (rule Suc.IH[OF less])
      have F: "DPLL_fuel n (assign cnf2 v False) (r(v \<mapsto> False))
                 = Some (DPLL (assign cnf2 v False) (r(v \<mapsto> False)))" for r
        by (rule Suc.IH[OF less])
      show ?thesis
        using up' ple False
        by (simp add: DPLL_branch[OF up' ple False] Let_def T F flip: v_def split: prod.splits)
    qed
  qed
qed

text \<open>
  Claim C9. \<^verbatim>\<open>DPLL\<close> returns on every clause set, with a recursion depth of at most the
  number of distinct variables of the input plus one: \<^verbatim>\<open>assign\<close> leaves no occurrence of
  the variable it is given, the branching variable occurs in the formula it is chosen from,
  and so both formulas handed to the recursive calls have strictly fewer distinct variables
  than the formula the call received.
\<close>

theorem DPLL_terminates:
  "DPLL_fuel (Suc (card (variables F))) F A = Some (DPLL F A)
   \<and> variable \<notin> literals (assign F variable b) \<and> - variable \<notin> literals (assign F variable b)
   \<and> (UnitPropagation F A = (F1, True, A1) \<and> PureLiteralElimination F1 A1 = (F2, A2) \<and> F2 \<noteq> []
        \<longrightarrow> choose_variable F2 \<in> variables F2
          \<and> variables (assign F2 (choose_variable F2) b) \<subseteq> variables F - {choose_variable F2}
          \<and> card (variables (assign F2 (choose_variable F2) b)) < card (variables F))"
proof (intro conjI impI)
  show "DPLL_fuel (Suc (card (variables F))) F A = Some (DPLL F A)"
    by (rule DPLL_fuel_enough) simp
  show "variable \<notin> literals (assign F variable b)" "- variable \<notin> literals (assign F variable b)"
    using literals_assign[of F variable b] by auto
next
  assume h: "UnitPropagation F A = (F1, True, A1) \<and> PureLiteralElimination F1 A1 = (F2, A2) \<and> F2 \<noteq> []"
  then have up: "UnitPropagation F A = (F1, True, A1)"
    and ple: "PureLiteralElimination F1 A1 = (F2, A2)" and ne: "F2 \<noteq> []" by auto
  have "[] \<notin> set F2"
    using UnitPropagation_ok_no_empty[OF up] set_PureLiteralElimination[OF ple] by auto
  with ne have "\<exists>c\<in>set F2. c \<noteq> []" by (cases F2) auto
  then show "choose_variable F2 \<in> variables F2" by (rule choose_variable_in)
  have "variables F2 \<subseteq> variables F"
    using variables_mono[OF set_PureLiteralElimination[OF ple]] variables_UnitPropagation[OF up]
    by blast
  moreover have "abs (choose_variable F2) = choose_variable F2"
    using choose_variable_nonneg[of F2] by simp
  ultimately show "variables (assign F2 (choose_variable F2) b) \<subseteq> variables F - {choose_variable F2}"
    using variables_assign[of F2 "choose_variable F2" b] by auto
  show "card (variables (assign F2 (choose_variable F2) b)) < card (variables F)"
    by (rule branch_decreases[OF up ple ne])
qed

theorem DPLL_terminates_witness:
  "DPLL_fuel (Suc (card (variables [[1, 2], [- 1, - 2]]))) [[1, 2], [- 1, - 2]] Map.empty
     = Some (True, [1 \<mapsto> True, 2 \<mapsto> False])
   \<and> UnitPropagation [[1, 2], [- 1, - 2]] Map.empty = ([[1, 2], [- 1, - 2]], True, Map.empty)
   \<and> PureLiteralElimination [[1, 2], [- 1, - 2]] Map.empty = ([[1, 2], [- 1, - 2]], Map.empty)
   \<and> choose_variable [[1, 2], [- 1, - 2]] = 1
   \<and> assign [[1, 2], [- 1, - 2]] 1 True = [[- 2]]
   \<and> card (variables [[- 2]]) < card (variables [[1, 2], [- 1, - 2]])"
proof -
  have up: "UnitPropagation [[1, 2], [- 1, - 2]] Map.empty = ([[1, 2], [- 1, - 2]], True, Map.empty)"
    and ple: "PureLiteralElimination [[1, 2], [- 1, - 2]] Map.empty = ([[1, 2], [- 1, - 2]], Map.empty)"
    and ch: "choose_variable [[1, 2], [- 1, - 2]] = 1"
    and as: "assign [[1, 2], [- 1, - 2]] 1 True = [[- 2]]"
    and res: "DPLL [[1, 2], [- 1, - 2]] Map.empty = (True, [1 \<mapsto> True, 2 \<mapsto> False])"
    by (simp_all add: solver_eval)
  from DPLL_terminates[of "[[1, 2], [- 1, - 2]]" Map.empty 1 True
      "[[1, 2], [- 1, - 2]]" Map.empty "[[1, 2], [- 1, - 2]]" Map.empty]
  show ?thesis by (simp add: up ple ch as res)
qed

section \<open>The two control strategies\<close>

lemma fst_UnitPropagation_loop_indep:
  "fst (UnitPropagation_loop cnf asg) = fst (UnitPropagation_loop cnf asg')"
proof (induct cnf asg arbitrary: asg' rule: UnitPropagation_loop_induct)
  case (None cnf asg)
  then show ?case by (simp add: UnitPropagation_loop_None)
next
  case (Some cnf asg u)
  show ?case
    by (simp only: UnitPropagation_loop_Some[OF Some.hyps(1)]
        Some.hyps(2)[of "asg'(abs u \<mapsto> u > 0)"])
qed

lemma UnitPropagation_indep:
  assumes "UnitPropagation cnf asg = (cnf1, ok, asg1)"
  shows "\<exists>asg1'. UnitPropagation cnf asg' = (cnf1, ok, asg1')"
  using assms fst_UnitPropagation_loop_indep[of cnf asg asg']
  by (auto simp: UnitPropagation_def split: prod.splits)

lemma PureLiteralElimination_indep:
  assumes "PureLiteralElimination cnf asg = (cnf2, asg2)"
  shows "\<exists>asg2'. PureLiteralElimination cnf asg' = (cnf2, asg2')"
  using assms PureLiteralElimination_fst[of cnf asg] PureLiteralElimination_fst[of cnf asg']
  by (cases "PureLiteralElimination cnf asg'") auto

lemma iterativeDPLL_loop_conflict:
  "UnitPropagation cnf asg = (cnf1, False, asg1) \<Longrightarrow>
   iterativeDPLL_loop ((cnf, asg) # stack) a0 = iterativeDPLL_loop stack a0"
  by (simp add: iterativeDPLL_loop.simps(2)[of cnf])

lemma iterativeDPLL_loop_empty:
  "UnitPropagation cnf asg = (cnf1, True, asg1) \<Longrightarrow> PureLiteralElimination cnf1 asg1 = ([], asg2)
   \<Longrightarrow> iterativeDPLL_loop ((cnf, asg) # stack) a0 = (True, asg2)"
  by (simp add: iterativeDPLL_loop.simps(2)[of cnf])

lemma iterativeDPLL_loop_branch:
  "UnitPropagation cnf asg = (cnf1, True, asg1) \<Longrightarrow> PureLiteralElimination cnf1 asg1 = (cnf2, asg2)
   \<Longrightarrow> cnf2 \<noteq> [] \<Longrightarrow>
   iterativeDPLL_loop ((cnf, asg) # stack) a0 =
     iterativeDPLL_loop
       ((assign cnf2 (choose_variable cnf2) True, copyAssignment asg2) #
        (assign cnf2 (choose_variable cnf2) False, copyAssignment asg2) # stack) a0"
  by (simp add: iterativeDPLL_loop.simps(2)[of cnf] Let_def)

text \<open>
  How the work stack relates to the recursion: an entry whose formula the recursive search
  finds unsatisfiable is consumed without any effect on the rest of the stack, and an entry
  whose formula it finds satisfiable ends the loop with a result that does not depend on the
  rest of the stack.
\<close>

lemma iterativeDPLL_loop_DPLL:
  "(fst (DPLL cnf asg) \<longrightarrow>
      fst (iterativeDPLL_loop [(cnf, asg')] Map.empty) \<and>
      iterativeDPLL_loop ((cnf, asg') # stack) a0 = iterativeDPLL_loop [(cnf, asg')] Map.empty)
   \<and> (\<not> fst (DPLL cnf asg) \<longrightarrow>
      iterativeDPLL_loop ((cnf, asg') # stack) a0 = iterativeDPLL_loop stack a0)"
proof (induct cnf asg arbitrary: asg' stack a0 rule: DPLL_induct)
  case (conflict cnf asg cnf1 asg1)
  from UnitPropagation_indep[OF conflict.hyps, of asg']
  obtain asg1' where "UnitPropagation cnf asg' = (cnf1, False, asg1')" ..
  then show ?case
    by (simp add: DPLL_conflict[OF conflict.hyps] iterativeDPLL_loop_conflict)
next
  case (empty cnf asg cnf1 asg1 asg2)
  from UnitPropagation_indep[OF empty.hyps(1), of asg']
  obtain asg1' where up: "UnitPropagation cnf asg' = (cnf1, True, asg1')" ..
  from PureLiteralElimination_indep[OF empty.hyps(2), of asg1']
  obtain asg2' where "PureLiteralElimination cnf1 asg1' = ([], asg2')" ..
  with up show ?case
    by (simp add: DPLL_empty[OF empty.hyps] iterativeDPLL_loop_empty[OF up])
next
  case (branch cnf asg cnf1 asg1 cnf2 asg2 v)
  from UnitPropagation_indep[OF branch.hyps(1), of asg']
  obtain asg1' where up: "UnitPropagation cnf asg' = (cnf1, True, asg1')" ..
  from PureLiteralElimination_indep[OF branch.hyps(2), of asg1']
  obtain asg2' where ple: "PureLiteralElimination cnf1 asg1' = (cnf2, asg2')" ..
  define T where "T = (assign cnf2 v True, copyAssignment asg2')"
  define Fb where "Fb = (assign cnf2 v False, copyAssignment asg2')"
  have step: "iterativeDPLL_loop ((cnf, asg') # stack) a0 = iterativeDPLL_loop (T # Fb # stack) a0"
    for stack a0
    unfolding T_def Fb_def branch.hyps(4)
    by (rule iterativeDPLL_loop_branch[OF up ple branch.hyps(3)])
  let ?r1 = "DPLL (assign cnf2 v True) (asg2(v \<mapsto> True))"
  have unfold: "DPLL cnf asg =
     (case ?r1 of (satisfiable, result) \<Rightarrow>
        if satisfiable then (True, result)
        else DPLL (assign cnf2 v False) (result(v \<mapsto> False)))"
    unfolding branch.hyps(4) by (rule DPLL_branch[OF branch.hyps(1,2,3)])
  note IH1 = branch.hyps(5)[of "copyAssignment asg2'", folded T_def]
  show ?case
  proof (cases "fst ?r1")
    case True
    then obtain r where "?r1 = (True, r)" by (cases ?r1) auto
    then have sat: "fst (DPLL cnf asg)" by (simp add: unfold)
    have 1: "iterativeDPLL_loop (T # st) a = iterativeDPLL_loop [T] Map.empty" for st a
      using IH1[of st a] True by blast
    have 2: "fst (iterativeDPLL_loop [T] Map.empty)" using IH1[of "[]" Map.empty] True by blast
    have A: "iterativeDPLL_loop ((cnf, asg') # st) a = iterativeDPLL_loop [T] Map.empty" for st a
      by (rule trans[OF step 1])
    from sat 2 show ?thesis by (simp only: A simp_thms)
  next
    case False
    then obtain r where r: "?r1 = (False, r)" by (cases ?r1) auto
    have eq: "DPLL cnf asg = DPLL (assign cnf2 v False) (r(v \<mapsto> False))"
      by (simp add: unfold r)
    have 1: "iterativeDPLL_loop (T # st) a = iterativeDPLL_loop st a" for st a
      using IH1[of st a] False by blast
    have A: "iterativeDPLL_loop ((cnf, asg') # st) a = iterativeDPLL_loop (Fb # st) a" for st a
      by (rule trans[OF step 1])
    note IH2 = branch.hyps(6)[OF r, of "copyAssignment asg2'", folded Fb_def]
    show ?thesis
    proof (cases "fst (DPLL (assign cnf2 v False) (r(v \<mapsto> False)))")
      case True
      have 2: "iterativeDPLL_loop (Fb # st) a = iterativeDPLL_loop [Fb] Map.empty" for st a
        using IH2[of st a] True by blast
      have 3: "fst (iterativeDPLL_loop [Fb] Map.empty)" using IH2[of "[]" Map.empty] True by blast
      have B: "iterativeDPLL_loop ((cnf, asg') # st) a = iterativeDPLL_loop [Fb] Map.empty" for st a
        by (rule trans[OF A 2])
      from True 3 show ?thesis by (simp only: eq B simp_thms)
    next
      case False
      have 2: "iterativeDPLL_loop (Fb # st) a = iterativeDPLL_loop st a" for st a
        using IH2[of st a] False by blast
      have B: "iterativeDPLL_loop ((cnf, asg') # st) a = iterativeDPLL_loop st a" for st a
        by (rule trans[OF A 2])
      from False show ?thesis by (simp only: eq B simp_thms)
    qed
  qed
qed

text \<open>Both strategies always reach the same verdict.\<close>

lemma iterativeDPLL_verdict: "fst (iterativeDPLL F A) = fst (DPLL F A)"
proof (cases "fst (DPLL F A)")
  case True
  then show ?thesis
    using iterativeDPLL_loop_DPLL[of F A "copyAssignment A" "[]" A]
    by (simp add: iterativeDPLL_def)
next
  case False
  then show ?thesis
    using iterativeDPLL_loop_DPLL[of F A "copyAssignment A" "[]" A]
    by (simp add: iterativeDPLL_def iterativeDPLL_loop.simps(1))
qed

text \<open>
  Claim C1 (soundness of both search engines) holds for the recursive \<^verbatim>\<open>DPLL\<close>, by
  \<open>DPLL_sound\<close>, and fails for \<^verbatim>\<open>iterativeDPLL\<close>: the loop pushes the two branch
  formulas but never stores the branching variable in the assignment, as the recursive
  function does with \<^verbatim>\<open>assignment[variable] = true\<close>. On \<open>(1 \<or> 2) \<and> (\<not>1 \<or> \<not>2)\<close> it
  returns satisfiable with an assignment that mentions variable 2 only, and no literal of
  the clause \<open>[1, 2]\<close> is made true by it.
\<close>

theorem iterativeDPLL_omits_decisions:
  "iterativeDPLL [[1, 2], [- 1, - 2]] Map.empty = (True, [2 \<mapsto> False])
   \<and> \<not> (\<exists>literal\<in>set [1, 2]. literal_true [2 \<mapsto> False] literal)"
  by (simp add: solver_eval literal_true_def)

text \<open>
  Claim C5 (both strategies return the same verdict and the same assignment). The verdicts
  agree on every input, by \<open>iterativeDPLL_verdict\<close>. The assignments do not: on
  \<open>(1 \<or> 2) \<and> (\<not>1 \<or> \<not>2)\<close> the recursive search returns \<open>{1: true, 2: false}\<close> and the
  iterative one \<open>{2: false}\<close>.
\<close>

theorem strategies_disagree:
  "DPLL [[1, 2], [- 1, - 2]] Map.empty = (True, [1 \<mapsto> True, 2 \<mapsto> False])
   \<and> iterativeDPLL [[1, 2], [- 1, - 2]] Map.empty = (True, [2 \<mapsto> False])
   \<and> snd (DPLL [[1, 2], [- 1, - 2]] Map.empty) 1 \<noteq> snd (iterativeDPLL [[1, 2], [- 1, - 2]] Map.empty) 1"
  by (simp add: solver_eval)

text \<open>
  Claim C6 (each branch is explored with an assignment snapshot independent of its sibling)
  holds for \<^verbatim>\<open>iterativeDPLL\<close>, which pushes two copies of the map and, by
  \<open>iterativeDPLL_loop_DPLL\<close>, consumes a failed branch without any effect on the entries
  below it. It fails for the recursive \<^verbatim>\<open>DPLL\<close>, where both branches write to one map.
  On the formula below nothing is propagated or eliminated before branching on variable 1.
  The true branch records \<open>2 \<mapsto> true\<close> by unit propagation and fails. The false branch,
  whose formula does not mention variable 2, yields \<open>{1: false, 3: true, 4: false}\<close> when
  started from the state before the branch; the search returns that map with the stale
  entry \<open>2 \<mapsto> true\<close> of the true branch in it.
\<close>

theorem DPLL_branches_share_assignment:
  "UnitPropagation [[1, 3, 4], [1, - 3, - 4], [- 1, 2], [- 1, - 2]] Map.empty
     = ([[1, 3, 4], [1, - 3, - 4], [- 1, 2], [- 1, - 2]], True, Map.empty)
   \<and> PureLiteralElimination [[1, 3, 4], [1, - 3, - 4], [- 1, 2], [- 1, - 2]] Map.empty
     = ([[1, 3, 4], [1, - 3, - 4], [- 1, 2], [- 1, - 2]], Map.empty)
   \<and> choose_variable [[1, 3, 4], [1, - 3, - 4], [- 1, 2], [- 1, - 2]] = 1
   \<and> assign [[1, 3, 4], [1, - 3, - 4], [- 1, 2], [- 1, - 2]] 1 True = [[2], [- 2]]
   \<and> DPLL [[2], [- 2]] [1 \<mapsto> True] = (False, [1 \<mapsto> True, 2 \<mapsto> True])
   \<and> assign [[1, 3, 4], [1, - 3, - 4], [- 1, 2], [- 1, - 2]] 1 False = [[3, 4], [- 3, - 4]]
   \<and> DPLL [[3, 4], [- 3, - 4]] [1 \<mapsto> False] = (True, [1 \<mapsto> False, 3 \<mapsto> True, 4 \<mapsto> False])
   \<and> DPLL [[1, 3, 4], [1, - 3, - 4], [- 1, 2], [- 1, - 2]] Map.empty
     = (True, [2 \<mapsto> True, 1 \<mapsto> False, 3 \<mapsto> True, 4 \<mapsto> False])"
  by (simp add: solver_eval)

section \<open>Properties of the simplifier\<close>

lemma find_unit_UnitPropagation_loop:
  "find_unit (fst (UnitPropagation_loop cnf asg)) = None"
proof (induct cnf asg rule: UnitPropagation_loop_induct)
  case (None cnf asg)
  then show ?case by (simp add: UnitPropagation_loop_None)
next
  case (Some cnf asg u)
  then show ?case by (simp only: UnitPropagation_loop_Some[OF Some.hyps(1)])
qed

text \<open>
  Claim C8. When \<^verbatim>\<open>UnitPropagation\<close> returns \<open>ok\<close>, the formula it returns has no clause
  of exactly one literal and no empty clause; and it reports a conflict (\<open>ok\<close> false) exactly
  when the formula it returns contains an empty clause.
\<close>

theorem UnitPropagation_postconditions:
  assumes "UnitPropagation F A = (F', ok, A')"
  shows "(ok \<longrightarrow> (\<forall>clause\<in>set F'. length clause \<noteq> 1 \<and> length clause \<noteq> 0))
       \<and> (\<not> ok \<longleftrightarrow> (\<exists>clause\<in>set F'. length clause = 0))"
proof -
  from assms have F': "F' = fst (UnitPropagation_loop F A)"
    and ok: "ok \<longleftrightarrow> \<not> (\<exists>clause\<in>set F'. length clause = 0)"
    by (auto simp: UnitPropagation_def split: prod.splits)
  have "\<forall>clause\<in>set F'. length clause \<noteq> 1"
    using find_unit_UnitPropagation_loop[of F A] by (simp add: F' find_unit_None)
  with ok show ?thesis by blast
qed

theorem UnitPropagation_postconditions_witness:
  "UnitPropagation [[1], [- 1, 2], [3, 4]] Map.empty = ([[3, 4]], True, [1 \<mapsto> True, 2 \<mapsto> True])
   \<and> \<not> (\<exists>clause\<in>set [[3, 4 :: int]]. length clause = 1 \<or> length clause = 0)
   \<and> UnitPropagation [[1], [- 1]] Map.empty = ([[]], False, [1 \<mapsto> True])
   \<and> (\<exists>clause\<in>set [[] :: int list]. length clause = 0)"
proof -
  have 1: "UnitPropagation [[1], [- 1, 2], [3, 4]] Map.empty
             = ([[3, 4]], True, [1 \<mapsto> True, 2 \<mapsto> True])"
    by (simp add: solver_eval)
  have 2: "UnitPropagation [[1], [- 1]] Map.empty = ([[]], False, [1 \<mapsto> True])"
    by (simp add: solver_eval)
  from UnitPropagation_postconditions[OF 1] UnitPropagation_postconditions[OF 2] 1 2
  show ?thesis by simp
qed

lemma assign_absent:
  assumes "v \<notin> literals F" "- v \<notin> literals F"
  shows "assign F v b = F"
proof -
  have "\<And>c. c \<in> set F \<Longrightarrow> \<not> satisfies_clause c v b"
    using assms by (auto simp: satisfies_clause_def literals_def)
  then have "filter (\<lambda>c. \<not> satisfies_clause c v b) F = F" by simp
  moreover have "map (filter (\<lambda>l. l \<noteq> v \<and> l \<noteq> - v)) F = map (\<lambda>c. c) F"
    using assms by (intro map_cong refl filter_True) (auto simp: literals_def)
  ultimately show ?thesis by (simp add: assign_eq)
qed

subsection \<open>assign on an explicit store\<close>

text \<open>
  To state that \<^verbatim>\<open>assign\<close> leaves its input alone, the slices are put into a store. The
  backing array of a slice is an object with an address: \<open>clause_mem\<close> holds the arrays of
  literals and \<open>cnf_mem\<close> the arrays of clauses, a clause being the address of its array.
  \<^verbatim>\<open>Clause{}\<close> and \<^verbatim>\<open>CNF{}\<close> make a new empty object, \<^verbatim>\<open>append\<close> writes to the object
  of the slice it extends, and a \<^verbatim>\<open>range\<close> loop reads the element at each index from the
  store when it gets there.
\<close>

type_synonym addr = nat

record heap =
  clause_mem :: "addr \<rightharpoonup> int list"
  cnf_mem :: "addr \<rightharpoonup> addr list"
  next_addr :: addr

definition read_clause :: "heap \<Rightarrow> addr \<Rightarrow> int list" where
  "read_clause h a = (case clause_mem h a of None \<Rightarrow> [] | Some xs \<Rightarrow> xs)"

definition read_cnf :: "heap \<Rightarrow> addr \<Rightarrow> addr list" where
  "read_cnf h a = (case cnf_mem h a of None \<Rightarrow> [] | Some xs \<Rightarrow> xs)"

definition new_Clause :: "heap \<Rightarrow> heap \<times> addr" where
  "new_Clause h =
     (h\<lparr>clause_mem := (clause_mem h)(next_addr h \<mapsto> []), next_addr := Suc (next_addr h)\<rparr>,
      next_addr h)"

definition new_CNF :: "heap \<Rightarrow> heap \<times> addr" where
  "new_CNF h =
     (h\<lparr>cnf_mem := (cnf_mem h)(next_addr h \<mapsto> []), next_addr := Suc (next_addr h)\<rparr>,
      next_addr h)"

definition append_literal :: "heap \<Rightarrow> addr \<Rightarrow> int \<Rightarrow> heap" where
  "append_literal h a literal = h\<lparr>clause_mem := (clause_mem h)(a \<mapsto> read_clause h a @ [literal])\<rparr>"

definition append_clause :: "heap \<Rightarrow> addr \<Rightarrow> addr \<Rightarrow> heap" where
  "append_clause h a clause = h\<lparr>cnf_mem := (cnf_mem h)(a \<mapsto> read_cnf h a @ [clause])\<rparr>"

fun assign_clause_heap ::
  "heap \<Rightarrow> addr \<Rightarrow> nat list \<Rightarrow> int \<Rightarrow> bool \<Rightarrow> addr \<Rightarrow> heap \<times> bool" where
  "assign_clause_heap h clause [] variable val newClause = (h, False)"
| "assign_clause_heap h clause (idx # rest) variable val newClause =
     (let literal = read_clause h clause ! idx in
      if literal = variable \<and> val \<or> literal = - variable \<and> \<not> val then (h, True)
      else if literal \<noteq> variable \<and> literal \<noteq> - variable
           then assign_clause_heap (append_literal h newClause literal) clause rest variable val newClause
           else assign_clause_heap h clause rest variable val newClause)"

fun assign_loop_heap ::
  "heap \<Rightarrow> addr \<Rightarrow> nat list \<Rightarrow> int \<Rightarrow> bool \<Rightarrow> addr \<Rightarrow> heap" where
  "assign_loop_heap h cnf [] variable val newCNF = h"
| "assign_loop_heap h cnf (idx # rest) variable val newCNF =
     (let clause = read_cnf h cnf ! idx;
          (h1, newClause) = new_Clause h;
          (h2, skipClause) =
             assign_clause_heap h1 clause [0..<length (read_clause h1 clause)] variable val newClause
      in if \<not> skipClause
         then assign_loop_heap (append_clause h2 newCNF newClause) cnf rest variable val newCNF
         else assign_loop_heap h2 cnf rest variable val newCNF)"

definition assign_heap :: "heap \<Rightarrow> addr \<Rightarrow> int \<Rightarrow> bool \<Rightarrow> heap \<times> addr" where
  "assign_heap h cnf variable val =
     (let (h0, newCNF) = new_CNF h
      in (assign_loop_heap h0 cnf [0..<length (read_cnf h0 cnf)] variable val newCNF, newCNF))"

text \<open>The value of the formula stored at an address.\<close>

definition abs_cnf :: "heap \<Rightarrow> addr \<Rightarrow> CNF" where
  "abs_cnf h a = map (read_clause h) (read_cnf h a)"

lemma assign_clause_heap_frame:
  "(\<forall>a. a \<noteq> newClause \<longrightarrow>
       clause_mem (fst (assign_clause_heap h clause idxs v b newClause)) a = clause_mem h a)
   \<and> cnf_mem (fst (assign_clause_heap h clause idxs v b newClause)) = cnf_mem h
   \<and> next_addr (fst (assign_clause_heap h clause idxs v b newClause)) = next_addr h"
proof (induction idxs arbitrary: h)
  case Nil
  show ?case by simp
next
  case (Cons idx idxs)
  let ?h = "append_literal h newClause (read_clause h clause ! idx)"
  have mem: "\<forall>a. a \<noteq> newClause \<longrightarrow> clause_mem ?h a = clause_mem h a"
    "cnf_mem ?h = cnf_mem h" "next_addr ?h = next_addr h"
    by (simp_all add: append_literal_def)
  from Cons.IH[of h] Cons.IH[of ?h] mem show ?case
    by (simp add: Let_def)
qed

lemma assign_clause_heap_content:
  assumes "clause \<noteq> newClause"
  shows "assign_clause (map ((!) (read_clause h clause)) idxs) v b (read_clause h newClause)
           = (if snd (assign_clause_heap h clause idxs v b newClause) then None
              else Some (read_clause (fst (assign_clause_heap h clause idxs v b newClause)) newClause))"
proof (induction idxs arbitrary: h)
  case Nil
  show ?case by simp
next
  case (Cons idx idxs)
  let ?l = "read_clause h clause ! idx"
  let ?h = "append_literal h newClause ?l"
  have same: "read_clause ?h clause = read_clause h clause"
    using assms by (simp add: append_literal_def read_clause_def)
  have new: "read_clause ?h newClause = read_clause h newClause @ [?l]"
    by (simp add: append_literal_def read_clause_def)
  consider (skip) "?l = v \<and> b \<or> ?l = - v \<and> \<not> b"
    | (keep) "\<not> (?l = v \<and> b \<or> ?l = - v \<and> \<not> b)" "?l \<noteq> v \<and> ?l \<noteq> - v"
    | (drop) "\<not> (?l = v \<and> b \<or> ?l = - v \<and> \<not> b)" "\<not> (?l \<noteq> v \<and> ?l \<noteq> - v)"
    by blast
  then show ?case
  proof cases
    case skip
    then show ?thesis by (simp add: Let_def)
  next
    case keep
    then have eq: "assign_clause_heap h clause (idx # idxs) v b newClause
        = assign_clause_heap ?h clause idxs v b newClause"
      by (simp add: Let_def)
    from keep have eq2: "assign_clause (map ((!) (read_clause h clause)) (idx # idxs)) v b
          (read_clause h newClause)
        = assign_clause (map ((!) (read_clause ?h clause)) idxs) v b (read_clause ?h newClause)"
      by (simp add: same new)
    from Cons.IH[of ?h] show ?thesis unfolding eq eq2 by simp
  next
    case drop
    then have eq: "assign_clause_heap h clause (idx # idxs) v b newClause
        = assign_clause_heap h clause idxs v b newClause"
      by (auto simp: Let_def)
    from drop have eq2: "assign_clause (map ((!) (read_clause h clause)) (idx # idxs)) v b
          (read_clause h newClause)
        = assign_clause (map ((!) (read_clause h clause)) idxs) v b (read_clause h newClause)"
      by auto
    from Cons.IH[of h] show ?thesis unfolding eq eq2 by simp
  qed
qed

text \<open>One round of the outer loop.\<close>

definition assign_round :: "heap \<Rightarrow> addr \<Rightarrow> nat \<Rightarrow> int \<Rightarrow> bool \<Rightarrow> addr \<Rightarrow> heap" where
  "assign_round h cnf idx variable val newCNF =
     (let clause = read_cnf h cnf ! idx;
          (h1, newClause) = new_Clause h;
          (h2, skipClause) =
             assign_clause_heap h1 clause [0..<length (read_clause h1 clause)] variable val newClause
      in if \<not> skipClause then append_clause h2 newCNF newClause else h2)"

lemma assign_loop_heap_Cons:
  "assign_loop_heap h cnf (idx # rest) v b newCNF
     = assign_loop_heap (assign_round h cnf idx v b newCNF) cnf rest v b newCNF"
  by (simp add: assign_round_def Let_def split: prod.splits)

lemma assign_round_frame:
  "(\<forall>a. a < next_addr h \<longrightarrow> clause_mem (assign_round h cnf idx v b newCNF) a = clause_mem h a)
   \<and> (\<forall>a. a \<noteq> newCNF \<longrightarrow> cnf_mem (assign_round h cnf idx v b newCNF) a = cnf_mem h a)
   \<and> next_addr (assign_round h cnf idx v b newCNF) = Suc (next_addr h)"
proof -
  let ?clause = "read_cnf h cnf ! idx"
  let ?h1 = "fst (new_Clause h)"
  let ?r = "assign_clause_heap ?h1 ?clause [0..<length (read_clause ?h1 ?clause)] v b (next_addr h)"
  have h1: "\<forall>a. a \<noteq> next_addr h \<longrightarrow> clause_mem ?h1 a = clause_mem h a"
    "cnf_mem ?h1 = cnf_mem h" "next_addr ?h1 = Suc (next_addr h)"
    by (simp_all add: new_Clause_def)
  note f = assign_clause_heap_frame[of "next_addr h" ?h1 ?clause "[0..<length (read_clause ?h1 ?clause)]" v b]
  have round: "assign_round h cnf idx v b newCNF
      = (if \<not> snd ?r then append_clause (fst ?r) newCNF (next_addr h) else fst ?r)"
    by (simp add: assign_round_def Let_def new_Clause_def split: prod.splits)
  show ?thesis
    unfolding round using f h1 by (auto simp: append_clause_def)
qed

lemma assign_loop_heap_frame:
  "(\<forall>a. a < next_addr h \<longrightarrow> clause_mem (assign_loop_heap h cnf idxs v b newCNF) a = clause_mem h a)
   \<and> (\<forall>a. a \<noteq> newCNF \<longrightarrow> cnf_mem (assign_loop_heap h cnf idxs v b newCNF) a = cnf_mem h a)
   \<and> next_addr h \<le> next_addr (assign_loop_heap h cnf idxs v b newCNF)"
proof (induction idxs arbitrary: h)
  case Nil
  show ?case by simp
next
  case (Cons idx idxs)
  from Cons.IH[of "assign_round h cnf idx v b newCNF"] assign_round_frame[of h cnf idx v b newCNF]
  show ?case unfolding assign_loop_heap_Cons by auto
qed

lemma map_nth_upt: "map (\<lambda>idx. f (xs ! idx)) [0..<length xs] = map f xs"
  by (rule nth_equalityI) simp_all

lemma read_clause_cong: "clause_mem h' a = clause_mem h a \<Longrightarrow> read_clause h' a = read_clause h a"
  by (simp add: read_clause_def)

lemma read_cnf_cong: "cnf_mem h' a = cnf_mem h a \<Longrightarrow> read_cnf h' a = read_cnf h a"
  by (simp add: read_cnf_def)

lemma assign_round_content:
  assumes "read_cnf h cnf ! idx < next_addr h"
  shows "read_cnf (assign_round h cnf idx v b newCNF) newCNF =
           (case assign_clause (read_clause h (read_cnf h cnf ! idx)) v b [] of
              None \<Rightarrow> read_cnf h newCNF
            | Some newClause \<Rightarrow> read_cnf h newCNF @ [next_addr h])"
    and "assign_clause (read_clause h (read_cnf h cnf ! idx)) v b [] = Some newClause \<Longrightarrow>
           read_clause (assign_round h cnf idx v b newCNF) (next_addr h) = newClause"
proof -
  let ?clause = "read_cnf h cnf ! idx"
  let ?h1 = "fst (new_Clause h)"
  let ?r = "assign_clause_heap ?h1 ?clause [0..<length (read_clause ?h1 ?clause)] v b (next_addr h)"
  have ne: "?clause \<noteq> next_addr h" using assms by simp
  then have same: "read_clause ?h1 ?clause = read_clause h ?clause"
    by (simp add: new_Clause_def read_clause_def)
  have empty: "read_clause ?h1 (next_addr h) = []"
    by (simp add: new_Clause_def read_clause_def)
  have cnf1: "cnf_mem ?h1 = cnf_mem h" by (simp add: new_Clause_def)
  have round: "assign_round h cnf idx v b newCNF
      = (if \<not> snd ?r then append_clause (fst ?r) newCNF (next_addr h) else fst ?r)"
    by (simp add: assign_round_def Let_def new_Clause_def split: prod.splits)
  from assign_clause_heap_content[OF ne, of ?h1 "[0..<length (read_clause ?h1 ?clause)]" v b]
  have content: "assign_clause (read_clause h ?clause) v b []
      = (if snd ?r then None else Some (read_clause (fst ?r) (next_addr h)))"
    by (simp add: same empty map_nth)
  note f = assign_clause_heap_frame[of "next_addr h" ?h1 ?clause "[0..<length (read_clause ?h1 ?clause)]" v b]
  from f cnf1 have cnfr: "read_cnf (fst ?r) newCNF = read_cnf h newCNF"
    by (simp add: read_cnf_def)
  show "read_cnf (assign_round h cnf idx v b newCNF) newCNF =
           (case assign_clause (read_clause h ?clause) v b [] of
              None \<Rightarrow> read_cnf h newCNF
            | Some newClause \<Rightarrow> read_cnf h newCNF @ [next_addr h])"
    unfolding round content using cnfr by (simp add: append_clause_def read_cnf_def)
  show "read_clause (assign_round h cnf idx v b newCNF) (next_addr h) = newClause"
    if "assign_clause (read_clause h ?clause) v b [] = Some newClause"
    using that unfolding round content
    by (auto simp: append_clause_def read_clause_def split: if_splits)
qed

lemma assign_loop_heap_content:
  assumes "newCNF \<noteq> cnf"
    and "\<forall>a\<in>set (read_cnf h cnf). a < next_addr h"
    and "\<forall>a\<in>set (read_cnf h newCNF). a < next_addr h"
    and "\<forall>idx\<in>set idxs. idx < length (read_cnf h cnf)"
  shows "abs_cnf (assign_loop_heap h cnf idxs v b newCNF) newCNF
           = assign_loop (map (\<lambda>idx. read_clause h (read_cnf h cnf ! idx)) idxs) v b (abs_cnf h newCNF)
       \<and> (\<forall>a\<in>set (read_cnf (assign_loop_heap h cnf idxs v b newCNF) newCNF).
             a \<in> set (read_cnf h newCNF) \<or> next_addr h \<le> a)"
  using assms(2,3,4)
proof (induction idxs arbitrary: h)
  case Nil
  show ?case by simp
next
  case (Cons idx idxs)
  let ?h' = "assign_round h cnf idx v b newCNF"
  let ?c = "read_cnf h cnf ! idx"
  note f = assign_round_frame[of h cnf idx v b newCNF]
  have c: "?c < next_addr h" using Cons.prems(1,3) by simp
  note rc = assign_round_content[OF c, where v=v and b=b and newCNF=newCNF]
  have cnf': "read_cnf ?h' cnf = read_cnf h cnf"
    using f assms(1) by (intro read_cnf_cong) auto
  have old: "read_clause ?h' a = read_clause h a" if "a < next_addr h" for a
    using f that by (intro read_clause_cong) auto
  have p1: "\<forall>a\<in>set (read_cnf ?h' cnf). a < next_addr ?h'"
    using Cons.prems(1) f by (auto simp: cnf')
  have p2: "\<forall>a\<in>set (read_cnf ?h' newCNF). a < next_addr ?h'"
    using Cons.prems(2) f by (auto simp: rc(1) split: option.splits)
  have p3: "\<forall>idx\<in>set idxs. idx < length (read_cnf ?h' cnf)"
    using Cons.prems(3) by (simp add: cnf')
  have m: "map (\<lambda>idx. read_clause ?h' (read_cnf ?h' cnf ! idx)) idxs
         = map (\<lambda>idx. read_clause h (read_cnf h cnf ! idx)) idxs"
    using Cons.prems(1,3) by (intro map_cong refl) (simp add: cnf' old)
  have a: "abs_cnf ?h' newCNF =
       (case assign_clause (read_clause h ?c) v b [] of
          None \<Rightarrow> abs_cnf h newCNF
        | Some newClause \<Rightarrow> abs_cnf h newCNF @ [newClause])"
  proof (cases "assign_clause (read_clause h ?c) v b []")
    case None
    then show ?thesis
      using Cons.prems(2) by (simp add: abs_cnf_def rc(1) old)
  next
    case (Some nc)
    with rc(2)[OF Some] show ?thesis
      using Cons.prems(2) by (simp add: abs_cnf_def rc(1) old)
  qed
  from Cons.IH[OF p1 p2 p3] show ?case
    unfolding assign_loop_heap_Cons m a using f
    by (auto simp: rc(1) split: option.splits)
qed

lemma assign_heap_pure:
  assumes "cnf < next_addr h" and "\<forall>a\<in>set (read_cnf h cnf). a < next_addr h"
    and "assign_heap h cnf v b = (h', newCNF)"
  shows "newCNF = next_addr h"
    and "\<forall>a. a < next_addr h \<longrightarrow> clause_mem h' a = clause_mem h a \<and> cnf_mem h' a = cnf_mem h a"
    and "\<forall>a\<in>set (read_cnf h' newCNF). next_addr h \<le> a"
    and "abs_cnf h' newCNF = assign (abs_cnf h cnf) v b"
proof -
  let ?h0 = "fst (new_CNF h)"
  from assms(3) have new: "newCNF = next_addr h"
    and h': "h' = assign_loop_heap ?h0 cnf [0..<length (read_cnf ?h0 cnf)] v b newCNF"
    by (auto simp: assign_heap_def new_CNF_def Let_def)
  show "newCNF = next_addr h" by (rule new)
  have ne: "newCNF \<noteq> cnf" using assms(1) new by simp
  have h0: "clause_mem ?h0 = clause_mem h" "\<forall>a. a \<noteq> newCNF \<longrightarrow> cnf_mem ?h0 a = cnf_mem h a"
    "next_addr ?h0 = Suc (next_addr h)" "read_cnf ?h0 newCNF = []"
    by (simp_all add: new_CNF_def new read_cnf_def)
  have cnf0: "read_cnf ?h0 cnf = read_cnf h cnf"
    using h0(2) ne by (intro read_cnf_cong) auto
  have rc0: "read_clause ?h0 a = read_clause h a" for a
    by (simp add: read_clause_def h0(1))
  note f = assign_loop_heap_frame[of ?h0 cnf "[0..<length (read_cnf ?h0 cnf)]" v b newCNF, folded h']
  show "\<forall>a. a < next_addr h \<longrightarrow> clause_mem h' a = clause_mem h a \<and> cnf_mem h' a = cnf_mem h a"
    using f h0 new by auto
  have p1: "\<forall>a\<in>set (read_cnf ?h0 cnf). a < next_addr ?h0"
    using assms(2) by (auto simp: cnf0 h0(3))
  have p2: "\<forall>a\<in>set (read_cnf ?h0 newCNF). a < next_addr ?h0" by (simp add: h0(4))
  have p3: "\<forall>idx\<in>set [0..<length (read_cnf ?h0 cnf)]. idx < length (read_cnf ?h0 cnf)" by simp
  note c = assign_loop_heap_content[OF ne p1 p2 p3, of v b, folded h']
  from c show "\<forall>a\<in>set (read_cnf h' newCNF). next_addr h \<le> a"
    by (auto simp: h0(3,4))
  have "map (\<lambda>idx. read_clause ?h0 (read_cnf ?h0 cnf ! idx)) [0..<length (read_cnf ?h0 cnf)]
      = abs_cnf h cnf"
    unfolding abs_cnf_def cnf0 rc0 by (rule map_nth_upt)
  with c show "abs_cnf h' newCNF = assign (abs_cnf h cnf) v b"
    by (simp add: assign_def abs_cnf_def h0(4))
qed

text \<open>
  Claim C10. If neither the positive nor the negative literal of \<open>v\<close> occurs in \<open>F\<close>, then
  \<^verbatim>\<open>assign(F, v, b)\<close> is \<open>F\<close> for either value \<open>b\<close>; in particular this holds for every
  \<open>F = assign(F0, v, b0)\<close>. And \<^verbatim>\<open>assign\<close> returns a new clause set without mutating its
  input: run on a store in which the input formula and its clauses are allocated, it
  returns a new object whose clauses are new objects, it leaves every object that existed
  before the call as it was, and the formula it returns has the value \<open>assign\<close> computes.
\<close>

theorem assign_idempotent:
  "(v \<notin> literals F \<and> - v \<notin> literals F \<longrightarrow> assign F v b = F)
   \<and> assign (assign F0 v b0) v b = assign F0 v b0
   \<and> (cnf < next_addr h \<and> (\<forall>a\<in>set (read_cnf h cnf). a < next_addr h)
        \<and> assign_heap h cnf v b = (h', newCNF)
      \<longrightarrow> newCNF = next_addr h
        \<and> (\<forall>a. a < next_addr h \<longrightarrow> clause_mem h' a = clause_mem h a \<and> cnf_mem h' a = cnf_mem h a)
        \<and> (\<forall>a\<in>set (read_cnf h' newCNF). next_addr h \<le> a)
        \<and> abs_cnf h' newCNF = assign (abs_cnf h cnf) v b)"
proof (intro conjI impI)
  show "assign F v b = F" if "v \<notin> literals F \<and> - v \<notin> literals F"
    using that assign_absent by blast
  have "v \<notin> literals (assign F0 v b0)" "- v \<notin> literals (assign F0 v b0)"
    using literals_assign[of F0 v b0] by auto
  then show "assign (assign F0 v b0) v b = assign F0 v b0" by (rule assign_absent)
next
  assume a: "cnf < next_addr h \<and> (\<forall>a\<in>set (read_cnf h cnf). a < next_addr h)
        \<and> assign_heap h cnf v b = (h', newCNF)"
  then have 1: "cnf < next_addr h" and 2: "\<forall>a\<in>set (read_cnf h cnf). a < next_addr h"
    and 3: "assign_heap h cnf v b = (h', newCNF)" by auto
  show "newCNF = next_addr h"
    "\<forall>a. a < next_addr h \<longrightarrow> clause_mem h' a = clause_mem h a \<and> cnf_mem h' a = cnf_mem h a"
    "\<forall>a\<in>set (read_cnf h' newCNF). next_addr h \<le> a"
    "abs_cnf h' newCNF = assign (abs_cnf h cnf) v b"
    by (rule assign_heap_pure[OF 1 2 3])+
qed

text \<open>
  The witness runs \<^verbatim>\<open>assign(cnf, 2, false)\<close> on a store that holds the clauses \<open>[1, 2]\<close>
  and \<open>[-2, 3]\<close> at the addresses 0 and 1 and the formula made of them at address 2.
\<close>

definition example_heap :: heap where
  "example_heap = \<lparr>clause_mem = [0 \<mapsto> [1, 2], 1 \<mapsto> [- 2, 3]], cnf_mem = [2 \<mapsto> [0, 1]], next_addr = 3\<rparr>"

theorem assign_idempotent_witness:
  "2 \<notin> literals [[1, 3], [- 1]] \<and> - 2 \<notin> literals [[1, 3], [- 1]]
   \<and> assign [[1, 3], [- 1]] 2 True = [[1, 3], [- 1]]
   \<and> assign (assign [[1, 2], [- 2, 3], [- 1]] 2 False) 2 True = [[1], [- 1]]
   \<and> snd (assign_heap example_heap 2 2 False) = 3
   \<and> abs_cnf example_heap 2 = [[1, 2], [- 2, 3]]
   \<and> abs_cnf (fst (assign_heap example_heap 2 2 False)) 3 = [[1]]
   \<and> abs_cnf (fst (assign_heap example_heap 2 2 False)) 2 = [[1, 2], [- 2, 3]]"
proof -
  let ?h' = "fst (assign_heap example_heap 2 2 False)"
  let ?new = "snd (assign_heap example_heap 2 2 False)"
  have pre: "(2::nat) < next_addr example_heap"
    "\<forall>a\<in>set (read_cnf example_heap 2). a < next_addr example_heap"
    and val: "abs_cnf example_heap 2 = [[1, 2], [- 2, 3]]"
    and nxt: "next_addr example_heap = 3"
    and rd: "read_cnf example_heap 2 = [0, 1]"
    by (simp_all add: example_heap_def read_cnf_def abs_cnf_def read_clause_def)
  note inst = assign_idempotent[of 2 "[[1, 3], [- 1]]" True "[[1, 2], [- 2, 3], [- 1]]" False]
  note heap = assign_idempotent[of 2 "[[1, 3], [- 1]]" False "[[1, 2], [- 2, 3], [- 1]]" False
        2 example_heap ?h' ?new]
  have run: "assign_heap example_heap 2 2 False = (?h', ?new)" by simp
  from heap pre run have all:
    "?new = next_addr example_heap
     \<and> (\<forall>a. a < next_addr example_heap \<longrightarrow> clause_mem ?h' a = clause_mem example_heap a
                  \<and> cnf_mem ?h' a = cnf_mem example_heap a)
     \<and> (\<forall>a\<in>set (read_cnf ?h' ?new). next_addr example_heap \<le> a)
     \<and> abs_cnf ?h' ?new = assign (abs_cnf example_heap 2) 2 False"
    by blast
  then have new: "?new = 3" by (simp add: nxt)
  from all have frame: "\<forall>a. a < 3 \<longrightarrow> clause_mem ?h' a = clause_mem example_heap a
                  \<and> cnf_mem ?h' a = cnf_mem example_heap a"
    by (simp add: nxt)
  from all have res: "abs_cnf ?h' ?new = assign (abs_cnf example_heap 2) 2 False"
    by blast
  from res have r3: "abs_cnf ?h' 3 = [[1]]" by (simp add: new val assign_def)
  from frame have "cnf_mem ?h' 2 = cnf_mem example_heap 2"
    "clause_mem ?h' 0 = clause_mem example_heap 0" "clause_mem ?h' 1 = clause_mem example_heap 1"
    by simp_all
  then have r2: "abs_cnf ?h' 2 = abs_cnf example_heap 2"
    by (simp add: abs_cnf_def read_cnf_def read_clause_def rd[unfolded read_cnf_def])
  have alg: "2 \<notin> literals [[1, 3], [- 1]]" "- 2 \<notin> literals [[1, 3], [- 1]]"
    by (simp_all add: literals_def)
  from inst alg have "assign [[1, 3], [- 1]] 2 True = [[1, 3], [- 1]]"
    "assign (assign [[1, 2], [- 2, 3], [- 1]] 2 False) 2 True = assign [[1, 2], [- 2, 3], [- 1]] 2 False"
    by simp_all
  moreover have "assign [[1, 2], [- 2, 3], [- 1]] 2 False = [[1], [- 1]]" by (simp add: assign_def)
  ultimately show ?thesis using alg new val r3 r2 by simp
qed

section \<open>The parser and substitution expander\<close>

text \<open>
  \<^verbatim>\<open>parseCNF\<close> of \<^verbatim>\<open>satisfier.go\<close>. Go strings are byte sequences, as \<open>string\<close> is here.
  The formula syntax uses the double quote and the backslash, written \<open>dquote\<close> and
  \<open>backslash\<close>; the separators are the two-byte strings \<^verbatim>\<open>/\\<close> and \<^verbatim>\<open>\/\<close>.
\<close>

record FormulaStore =
  Formulas :: "string \<rightharpoonup> string"
  Assignments :: "string \<rightharpoonup> (string \<rightharpoonup> bool)"

definition dquote :: char where "dquote = CHR 0x22"
definition backslash :: char where "backslash = CHR 0x5C"

definition AND_sep :: string where "AND_sep = [CHR ''/'', backslash]"
definition OR_sep :: string where "OR_sep = [backslash, CHR ''/'']"

subsection \<open>The functions of package \<^verbatim>\<open>strings\<close> that the parser calls\<close>

definition HasPrefix :: "string \<Rightarrow> string \<Rightarrow> bool" where
  "HasPrefix s pre \<longleftrightarrow> take (length pre) s = pre"

text \<open>\<^verbatim>\<open>Trim\<close> removes every leading and every trailing byte that is in the cutset.\<close>

definition Trim :: "string \<Rightarrow> string \<Rightarrow> string" where
  "Trim s cutset =
     rev (dropWhile (\<lambda>c. c \<in> set cutset) (rev (dropWhile (\<lambda>c. c \<in> set cutset) s)))"

text \<open>\<^verbatim>\<open>ReplaceAll\<close> for a one-byte \<^verbatim>\<open>old\<close>; the parser calls it to delete the spaces.\<close>

definition ReplaceAll_char :: "string \<Rightarrow> char \<Rightarrow> string \<Rightarrow> string" where
  "ReplaceAll_char s old new = concat (map (\<lambda>c. if c = old then new else [c]) s)"

text \<open>
  \<^verbatim>\<open>Split\<close> cuts at every occurrence of the separator, found from left to right without
  overlap; a string without the separator gives the one-element list of itself. The
  parser only passes the two non-empty separators.
\<close>

function Split :: "string \<Rightarrow> string \<Rightarrow> string list" where
  "Split s sep =
     (if sep \<noteq> [] \<and> HasPrefix s sep then [] # Split (drop (length sep) s) sep
      else (case s of
              [] \<Rightarrow> [[]]
            | c # rest \<Rightarrow> (case Split rest sep of
                              piece # pieces \<Rightarrow> (c # piece) # pieces
                            | [] \<Rightarrow> [[c]])))"
  by pat_completeness auto
termination
proof (relation "measure (\<lambda>(s, sep). length s)", goal_cases)
  case 1
  show ?case by simp
next
  case (2 s sep)
  then have "sep \<noteq> []" "take (length sep) s = sep" by (simp_all add: HasPrefix_def)
  then have "0 < length sep" "s \<noteq> []" by auto
  then show ?case by simp
next
  case (3 s sep c rest)
  then show ?case by simp
qed

declare Split.simps [simp del]

subsection \<open>parseCNF\<close>

text \<open>
  The variables of one invocation: \<^verbatim>\<open>varMap\<close> is the caller's map (a reference, shared
  with every recursive invocation); \<^verbatim>\<open>reverseMap\<close>, \<^verbatim>\<open>counter\<close> and \<^verbatim>\<open>cnf\<close> are
  local variables, created anew by every invocation.
\<close>

record parse_state =
  p_varMap :: "string \<rightharpoonup> int"
  p_reverseMap :: "int \<rightharpoonup> string"
  p_counter :: int
  p_cnf :: CNF

text \<open>The closure \<^verbatim>\<open>assignVar\<close>.\<close>

definition assignVar :: "string \<Rightarrow> parse_state \<Rightarrow> int \<times> parse_state" where
  "assignVar v st =
     (case p_varMap st v of
        None \<Rightarrow>
          (p_counter st,
           st\<lparr>p_varMap := (p_varMap st)(v \<mapsto> p_counter st),
              p_reverseMap := (p_reverseMap st)(p_counter st \<mapsto> v),
              p_counter := p_counter st + 1\<rparr>)
      | Some n \<Rightarrow> (n, st))"

text \<open>A \<^verbatim>\<open>for ... range\<close> loop whose body may fail to return.\<close>

primrec for_each :: "('a \<Rightarrow> 's \<Rightarrow> 's option) \<Rightarrow> 'a list \<Rightarrow> 's \<Rightarrow> 's option" where
  "for_each body [] s = Some s"
| "for_each body (x # xs) s = (case body x s of None \<Rightarrow> None | Some s' \<Rightarrow> for_each body xs s')"

lemma for_each_mono [partial_function_mono]:
  assumes "\<And>x s. mono_option (\<lambda>f. body f x s)"
  shows "mono_option (\<lambda>f. for_each (body f) xs s)"
proof (induction xs arbitrary: s)
  case Nil
  show ?case by (simp add: option.const_mono)
next
  case (Cons x xs)
  have "mono_option (\<lambda>f. Option.bind (body f x s) (\<lambda>s'. for_each (body f) xs s'))"
    by (intro bind_mono assms Cons.IH)
  moreover have "Option.bind (body f x s) (\<lambda>s'. for_each (body f) xs s')
        = for_each (body f) (x # xs) s" for f
    by (cases "body f x s") auto
  ultimately show ?case by simp
qed

text \<open>
  The result is the Go result pair \<^verbatim>\<open>(cnf, reverseMap)\<close> followed by the state in which
  the call leaves the caller's \<^verbatim>\<open>varMap\<close>. The recursion follows the references between
  stored formulas and nothing bounds it, so the function is partial: \<open>None\<close> means that the
  call does not return.
\<close>

type_synonym parse_result = "CNF \<times> (int \<rightharpoonup> string) \<times> (string \<rightharpoonup> int)"

partial_function (option) parseCNF ::
  "string \<Rightarrow> (string \<rightharpoonup> int) \<Rightarrow> FormulaStore \<Rightarrow> parse_result option" where
  "parseCNF input varMap store = do {
     st \<leftarrow> for_each
       (\<lambda>clauseStr st. do {
          (st', clause) \<leftarrow> for_each
            (\<lambda>litStr (st, clause).
               let isNeg = HasPrefix litStr ''!'';
                   litStr = Trim litStr ''!''
               in case Formulas store litStr of
                    Some storedFormula \<Rightarrow> do {
                      (subCNF, _, varMap') \<leftarrow> parseCNF storedFormula (p_varMap st) store;
                      Some (st\<lparr>p_varMap := varMap',
                               p_cnf := p_cnf st @
                                 (if isNeg then map (map uminus) subCNF else subCNF)\<rparr>,
                            clause)
                    }
                  | None \<Rightarrow>
                      (case assignVar litStr st of
                         (lit, st') \<Rightarrow> Some (st', clause @ [if isNeg then - lit else lit])))
            (Split (Trim clauseStr ''()'') OR_sep) (st, []);
          Some (if length clause > 0 then st'\<lparr>p_cnf := p_cnf st' @ [clause]\<rparr> else st')
        })
       (Split (ReplaceAll_char input CHR '' '' []) AND_sep)
       \<lparr>p_varMap = varMap, p_reverseMap = Map.empty, p_counter = 1, p_cnf = []\<rparr>;
     Some (p_cnf st, p_reverseMap st, p_varMap st)
   }"

declare parseCNF.simps [code]

text \<open>A name between double quotes, as the surface syntax writes it.\<close>

definition quoted :: "string \<Rightarrow> string" where
  "quoted name = dquote # name @ [dquote]"

lemmas parser_eval = parseCNF.simps Split.simps HasPrefix_def Trim_def ReplaceAll_char_def
  assignVar_def AND_sep_def OR_sep_def quoted_def dquote_def backslash_def

subsection \<open>References between stored formulas\<close>

text \<open>
  The literal tokens of a formula text, as \<^verbatim>\<open>parseCNF\<close> cuts them out; a text refers to
  the stored text of every token that is a key of the store.
\<close>

definition tokens :: "string \<Rightarrow> string list" where
  "tokens input =
     concat (map (\<lambda>clauseStr. map (\<lambda>litStr. Trim litStr ''!'')
                                   (Split (Trim clauseStr ''()'') OR_sep))
                 (Split (ReplaceAll_char input CHR '' '' []) AND_sep))"

definition refers :: "FormulaStore \<Rightarrow> string \<Rightarrow> string \<Rightarrow> bool" where
  "refers store text text' \<longleftrightarrow> (\<exists>name\<in>set (tokens text). Formulas store name = Some text')"

text \<open>The references of a text form a cycle, or lead to one.\<close>

definition cyclic :: "FormulaStore \<Rightarrow> string \<Rightarrow> bool" where
  "cyclic store text \<longleftrightarrow>
     (\<exists>text'. (refers store)\<^sup>*\<^sup>* text text' \<and> (refers store)\<^sup>+\<^sup>+ text' text')"

lemma cyclic_step:
  assumes "cyclic store text"
  shows "\<exists>text'. refers store text text' \<and> cyclic store text'"
proof -
  from assms obtain t where r: "(refers store)\<^sup>*\<^sup>* text t" and c: "(refers store)\<^sup>+\<^sup>+ t t"
    by (auto simp: cyclic_def)
  from r show ?thesis
  proof (cases rule: converse_rtranclpE)
    case base
    from c obtain t1 where "refers store t t1" "(refers store)\<^sup>*\<^sup>* t1 t"
      by (auto dest: tranclpD)
    with c base show ?thesis by (auto simp: cyclic_def)
  next
    case (step t1)
    with c show ?thesis by (auto simp: cyclic_def)
  qed
qed

lemma for_each_None:
  assumes "x \<in> set xs" "\<And>s. body x s = None"
  shows "for_each body xs s = None"
  using assms(1)
proof (induction xs arbitrary: s)
  case Nil
  then show ?case by simp
next
  case (Cons y ys)
  show ?case
  proof (cases "body y s")
    case None
    then show ?thesis by simp
  next
    case (Some s')
    show ?thesis
    proof (cases "x = y")
      case True
      with assms(2)[of s] Some show ?thesis by simp
    next
      case False
      with Cons.prems have "x \<in> set ys" by simp
      from Cons.IH[OF this] Some show ?thesis by simp
    qed
  qed
qed

text \<open>
  A call that returns has met no cycle: by fixpoint induction, a recursive call on a text
  with a cycle does not return, and the loops reach the token that makes that call.
\<close>

lemma parseCNF_Some_acyclic:
  "parseCNF input varMap store = Some y \<Longrightarrow> \<not> cyclic store input"
proof (induction rule: parseCNF.raw_induct[rotated 1, consumes 1])
  case (1 f input varMap store y)
  show ?case
  proof
    assume "cyclic store input"
    then obtain text' where ref: "refers store input text'" and cyc: "cyclic store text'"
      using cyclic_step by blast
    from ref obtain clauseStr litStr where
      cl: "clauseStr \<in> set (Split (ReplaceAll_char input CHR '' '' []) AND_sep)" and
      lit: "litStr \<in> set (Split (Trim clauseStr ''()'') OR_sep)" and
      st: "Formulas store (Trim litStr ''!'') = Some text'"
      by (auto simp: refers_def tokens_def)
    have rec: "f text' vm store = None" for vm
    proof (cases "f text' vm store")
      case None
      then show ?thesis .
    next
      case (Some r)
      from 1(1)[OF this] cyc show ?thesis by simp
    qed
    have inner: "for_each
            (\<lambda>litStr (st, clause).
               let isNeg = HasPrefix litStr ''!'';
                   litStr = Trim litStr ''!''
               in case Formulas store litStr of
                    Some storedFormula \<Rightarrow> do {
                      (subCNF, _, varMap') \<leftarrow> f storedFormula (p_varMap st) store;
                      Some (st\<lparr>p_varMap := varMap',
                               p_cnf := p_cnf st @
                                 (if isNeg then map (map uminus) subCNF else subCNF)\<rparr>,
                            clause)
                    }
                  | None \<Rightarrow>
                      (case assignVar litStr st of
                         (lit, st') \<Rightarrow> Some (st', clause @ [if isNeg then - lit else lit])))
            (Split (Trim clauseStr ''()'') OR_sep) s = None" for s
      by (rule for_each_None[OF lit]) (simp add: st rec split: prod.splits)
    have "for_each
       (\<lambda>clauseStr st. do {
          (st', clause) \<leftarrow> for_each
            (\<lambda>litStr (st, clause).
               let isNeg = HasPrefix litStr ''!'';
                   litStr = Trim litStr ''!''
               in case Formulas store litStr of
                    Some storedFormula \<Rightarrow> do {
                      (subCNF, _, varMap') \<leftarrow> f storedFormula (p_varMap st) store;
                      Some (st\<lparr>p_varMap := varMap',
                               p_cnf := p_cnf st @
                                 (if isNeg then map (map uminus) subCNF else subCNF)\<rparr>,
                            clause)
                    }
                  | None \<Rightarrow>
                      (case assignVar litStr st of
                         (lit, st') \<Rightarrow> Some (st', clause @ [if isNeg then - lit else lit])))
            (Split (Trim clauseStr ''()'') OR_sep) (st, []);
          Some (if length clause > 0 then st'\<lparr>p_cnf := p_cnf st' @ [clause]\<rparr> else st')
        })
       (Split (ReplaceAll_char input CHR '' '' []) AND_sep) s = None" for s
      by (rule for_each_None[OF cl]) (simp add: inner)
    with 1(2) show False by simp
  qed
qed

text \<open>
  Conversely the call returns whenever the references of the input are well-founded:
  \<open>expandable\<close> holds for a text when it holds for every stored text the text refers to.
\<close>

inductive expandable :: "FormulaStore \<Rightarrow> string \<Rightarrow> bool" for store where
  "(\<And>src'. refers store src src' \<Longrightarrow> expandable store src') \<Longrightarrow> expandable store src"

lemma for_each_Some:
  assumes "\<And>x s. x \<in> set xs \<Longrightarrow> \<exists>s'. body x s = Some s'"
  shows "\<exists>s'. for_each body xs s = Some s'"
  using assms
proof (induction xs arbitrary: s)
  case Nil
  show ?case by simp
next
  case (Cons x xs)
  from Cons.prems[of x s] obtain s1 where s1: "body x s = Some s1" by auto
  from Cons.IH[of s1] Cons.prems obtain s' where "for_each body xs s1 = Some s'" by auto
  with s1 show ?case by simp
qed

lemma parseCNF_returns:
  "expandable store input \<Longrightarrow> \<exists>r. parseCNF input varMap store = Some r"
proof (induction arbitrary: varMap rule: expandable.induct)
  case (1 src)
  define lit_body :: "string \<Rightarrow> parse_state \<times> Clause \<Rightarrow> (parse_state \<times> Clause) option" where
    "lit_body = (\<lambda>litStr (st, clause).
               let isNeg = HasPrefix litStr ''!'';
                   litStr = Trim litStr ''!''
               in case Formulas store litStr of
                    Some storedFormula \<Rightarrow> do {
                      (subCNF, _, varMap') \<leftarrow> parseCNF storedFormula (p_varMap st) store;
                      Some (st\<lparr>p_varMap := varMap',
                               p_cnf := p_cnf st @
                                 (if isNeg then map (map uminus) subCNF else subCNF)\<rparr>,
                            clause)
                    }
                  | None \<Rightarrow>
                      (case assignVar litStr st of
                         (lit, st') \<Rightarrow> Some (st', clause @ [if isNeg then - lit else lit])))"
  define clause_body :: "string \<Rightarrow> parse_state \<Rightarrow> parse_state option" where
    "clause_body = (\<lambda>clauseStr st. do {
          (st', clause) \<leftarrow> for_each lit_body (Split (Trim clauseStr ''()'') OR_sep) (st, []);
          Some (if length clause > 0 then st'\<lparr>p_cnf := p_cnf st' @ [clause]\<rparr> else st')
        })"
  have unfold: "parseCNF src varMap store = do {
     st \<leftarrow> for_each clause_body (Split (ReplaceAll_char src CHR '' '' []) AND_sep)
       \<lparr>p_varMap = varMap, p_reverseMap = Map.empty, p_counter = 1, p_cnf = []\<rparr>;
     Some (p_cnf st, p_reverseMap st, p_varMap st)
   }"
    by (subst parseCNF.simps) (simp add: clause_body_def lit_body_def)
  have lit: "\<exists>s'. lit_body litStr s = Some s'"
    if cl: "clauseStr \<in> set (Split (ReplaceAll_char src CHR '' '' []) AND_sep)"
      and l: "litStr \<in> set (Split (Trim clauseStr ''()'') OR_sep)"
    for clauseStr litStr s
  proof (cases "Formulas store (Trim litStr ''!'')")
    case None
    then show ?thesis by (simp add: lit_body_def Let_def split: prod.splits)
  next
    case (Some stored)
    with cl l have "refers store src stored" by (auto simp: refers_def tokens_def)
    from 1(2)[OF this, of "p_varMap (fst s)"] obtain r where
      "parseCNF stored (p_varMap (fst s)) store = Some r" ..
    with Some show ?thesis by (cases s; cases r) (simp add: lit_body_def Let_def)
  qed
  have clause: "\<exists>st'. clause_body clauseStr st = Some st'"
    if cl: "clauseStr \<in> set (Split (ReplaceAll_char src CHR '' '' []) AND_sep)"
    for clauseStr st
  proof -
    from for_each_Some[of "Split (Trim clauseStr ''()'') OR_sep" lit_body "(st, [])"] lit[OF cl]
    obtain s' where "for_each lit_body (Split (Trim clauseStr ''()'') OR_sep) (st, []) = Some s'"
      by blast
    then show ?thesis by (cases s') (simp add: clause_body_def)
  qed
  from for_each_Some[of "Split (ReplaceAll_char src CHR '' '' []) AND_sep" clause_body
      "\<lparr>p_varMap = varMap, p_reverseMap = Map.empty, p_counter = 1, p_cnf = []\<rparr>"] clause
  obtain st where "for_each clause_body (Split (ReplaceAll_char src CHR '' '' []) AND_sep)
       \<lparr>p_varMap = varMap, p_reverseMap = Map.empty, p_counter = 1, p_cnf = []\<rparr> = Some st"
    by blast
  then show ?case by (simp add: unfold)
qed

subsection \<open>The parser of the second source file\<close>

text \<open>
  The source file that holds \<^verbatim>\<open>iterativeDPLL\<close> has a \<^verbatim>\<open>parseCNF\<close> of its own, called
  \<open>parseCNF_scan\<close> here: one loop over the bytes of \<^verbatim>\<open>input\<close>, which replaces the name
  of a stored formula by the stored text inside \<^verbatim>\<open>input\<close> and scans on from the start of
  the replacement. The expression \<^verbatim>\<open>stack[:len(stack)-1]\<close> panics on an empty stack.
\<close>

datatype parse_error = SliceBoundsOutOfRange

record scan_state = parse_state +
  s_input :: string
  s_i :: nat
  s_stack :: "string list"
  s_currentClause :: Clause

text \<open>The closure \<^verbatim>\<open>assignVar\<close>, the same code as in the first parser.\<close>

definition assignVar_scan :: "string \<Rightarrow> scan_state \<Rightarrow> int \<times> scan_state" where
  "assignVar_scan v st =
     (case p_varMap st v of
        None \<Rightarrow>
          (p_counter st,
           st\<lparr>p_varMap := (p_varMap st)(v \<mapsto> p_counter st),
              p_reverseMap := (p_reverseMap st)(p_counter st \<mapsto> v),
              p_counter := p_counter st + 1\<rparr>)
      | Some n \<Rightarrow> (n, st))"

text \<open>\<^verbatim>\<open>if len(currentClause) > 0 { cnf = append(cnf, currentClause); currentClause = Clause{} }\<close>\<close>

definition flush_clause :: "scan_state \<Rightarrow> scan_state" where
  "flush_clause st =
     (if length (s_currentClause st) > 0
      then st\<lparr>p_cnf := p_cnf st @ [s_currentClause st], s_currentClause := []\<rparr>
      else st)"

text \<open>The inner loop that moves \<^verbatim>\<open>i\<close> to the end of a literal, and \<^verbatim>\<open>input[lo:hi]\<close>.\<close>

definition literal_char :: "char \<Rightarrow> bool" where
  "literal_char c \<longleftrightarrow> c \<noteq> CHR '')'' \<and> c \<noteq> backslash \<and> c \<noteq> CHR ''/''"

definition scan_literal :: "string \<Rightarrow> nat \<Rightarrow> nat" where
  "scan_literal input i = i + length (takeWhile literal_char (drop i input))"

definition slice :: "string \<Rightarrow> nat \<Rightarrow> nat \<Rightarrow> string" where
  "slice s lo hi = take (hi - lo) (drop lo s)"

text \<open>One round of the loop, the \<^verbatim>\<open>switch input[i]\<close>; the caller has checked \<^verbatim>\<open>i < len(input)\<close>.\<close>

definition parse_step :: "FormulaStore \<Rightarrow> scan_state \<Rightarrow> parse_error + scan_state" where
  "parse_step store st =
     (let input = s_input st; i = s_i st; c = input ! i in
      if c = CHR ''('' then
        Inr (st\<lparr>s_stack := s_stack st @ [''(''], s_i := i + 1\<rparr>)
      else if c = CHR '')'' then
        (let st' = flush_clause st in
         if s_stack st' = [] then Inl SliceBoundsOutOfRange
         else Inr (st'\<lparr>s_stack := butlast (s_stack st'), s_i := i + 1\<rparr>))
      else if c = CHR ''/'' then
        (if i + 1 < length input \<and> input ! (i + 1) = backslash
         then Inr ((flush_clause st)\<lparr>s_i := i + 2\<rparr>)
         else Inr (st\<lparr>s_i := i + 1\<rparr>))
      else if c = backslash then
        (if i + 1 < length input \<and> input ! (i + 1) = CHR ''/''
         then Inr (st\<lparr>s_i := i + 2\<rparr>)
         else Inr (st\<lparr>s_i := i + 1\<rparr>))
      else if c = CHR ''!'' then
        (let start = i + 1;
             i' = scan_literal input start;
             literal = slice input start i'
         in case Formulas store literal of
              Some storedFormula \<Rightarrow>
                Inr (st\<lparr>s_stack := s_stack st @ [''!'' @ literal],
                        s_input := take (start - 1) input @ storedFormula @ drop i' input,
                        s_i := start - 1\<rparr>)
            | None \<Rightarrow>
                (case assignVar_scan literal (st\<lparr>s_i := i'\<rparr>) of
                   (lit, st') \<Rightarrow> Inr (st'\<lparr>s_currentClause := s_currentClause st' @ [- lit]\<rparr>)))
      else
        (let start = i;
             i' = scan_literal input start;
             literal = slice input start i'
         in case Formulas store literal of
              Some storedFormula \<Rightarrow>
                Inr (st\<lparr>s_stack := s_stack st @ [literal],
                        s_input := take start input @ storedFormula @ drop i' input,
                        s_i := start\<rparr>)
            | None \<Rightarrow>
                (case assignVar_scan literal (st\<lparr>s_i := i'\<rparr>) of
                   (lit, st') \<Rightarrow> Inr (st'\<lparr>s_currentClause := s_currentClause st' @ [lit]\<rparr>))))"

partial_function (option) parseCNF_loop ::
  "FormulaStore \<Rightarrow> scan_state \<Rightarrow> (parse_error + scan_state) option" where
  "parseCNF_loop store st =
     (if s_i st < length (s_input st)
      then (case parse_step store st of
              Inl e \<Rightarrow> Some (Inl e)
            | Inr st' \<Rightarrow> parseCNF_loop store st')
      else Some (Inr st))"

declare parseCNF_loop.simps [code]

definition parseCNF_scan ::
  "string \<Rightarrow> (string \<rightharpoonup> int) \<Rightarrow> FormulaStore \<Rightarrow> (parse_error + parse_result) option" where
  "parseCNF_scan input varMap store =
     (case parseCNF_loop store
             \<lparr>p_varMap = varMap, p_reverseMap = Map.empty, p_counter = 1, p_cnf = [],
              s_input = ReplaceAll_char input CHR '' '' [], s_i = 0, s_stack = [],
              s_currentClause = []\<rparr> of
        None \<Rightarrow> None
      | Some (Inl e) \<Rightarrow> Some (Inl e)
      | Some (Inr st) \<Rightarrow>
          (let st' = flush_clause st in Some (Inr (p_cnf st', p_reverseMap st', p_varMap st'))))"

lemmas scan_eval = parseCNF_scan_def parseCNF_loop.simps parse_step_def flush_clause_def
  scan_literal_def literal_char_def slice_def assignVar_scan_def Let_def

subsection \<open>Cyclic references\<close>

text \<open>
  Scenario D: the store holds \<^verbatim>\<open>"X"\<close> with the text \<^verbatim>\<open>("X")\<close>, and that text is parsed.
\<close>

definition scenario_D_store :: FormulaStore where
  "scenario_D_store =
     \<lparr>Formulas = [quoted ''X'' \<mapsto> ''('' @ quoted ''X'' @ '')''], Assignments = Map.empty\<rparr>"

definition scenario_D_input :: string where
  "scenario_D_input = ''('' @ quoted ''X'' @ '')''"

text \<open>
  Two stored formulas that refer to each other: \<^verbatim>\<open>"X"\<close> is \<^verbatim>\<open>("Y")\<close> and \<^verbatim>\<open>"Y"\<close> is
  \<^verbatim>\<open>(!"X" \/ "b")\<close>; the text parsed is \<^verbatim>\<open>("a" \/ "X")\<close>.
\<close>

definition mutual_store :: FormulaStore where
  "mutual_store =
     \<lparr>Formulas = [quoted ''X'' \<mapsto> ''('' @ quoted ''Y'' @ '')'',
                  quoted ''Y'' \<mapsto> ''(!'' @ quoted ''X'' @ '' '' @ OR_sep @ '' '' @ quoted ''b'' @ '')''],
      Assignments = Map.empty\<rparr>"

definition mutual_input :: string where
  "mutual_input = ''('' @ quoted ''a'' @ '' '' @ OR_sep @ '' '' @ quoted ''X'' @ '')''"

lemma cyclic_scenario_D: "cyclic scenario_D_store scenario_D_input"
proof -
  have "refers scenario_D_store scenario_D_input scenario_D_input"
    by (simp add: refers_def tokens_def scenario_D_store_def scenario_D_input_def parser_eval)
  then show ?thesis unfolding cyclic_def by blast
qed

lemma cyclic_mutual: "cyclic mutual_store mutual_input"
proof -
  let ?X = "''('' @ quoted ''Y'' @ '')''"
  let ?Y = "''(!'' @ quoted ''X'' @ '' '' @ OR_sep @ '' '' @ quoted ''b'' @ '')''"
  have "refers mutual_store mutual_input ?X" "refers mutual_store ?X ?Y"
    "refers mutual_store ?Y ?X"
    by (simp_all add: refers_def tokens_def mutual_store_def mutual_input_def parser_eval)
  then have "(refers mutual_store)\<^sup>*\<^sup>* mutual_input ?X" "(refers mutual_store)\<^sup>+\<^sup>+ ?X ?X"
    by (blast intro: tranclp.intros)+
  then show ?thesis unfolding cyclic_def by blast
qed

text \<open>
  Scenario D in the scanning parser: once the rest of the input starts with \<^verbatim>\<open>("X")\<close> or
  with \<^verbatim>\<open>"X")\<close>, the next round leads to a state of the same kind, with a longer input.
\<close>

lemma drop_eq_ConsD:
  assumes "drop i xs = c # r"
  shows "i < length xs" "xs ! i = c" "drop (Suc i) xs = r"
proof -
  show i: "i < length xs" using assms by (cases "i < length xs") auto
  from Cons_nth_drop_Suc[OF i] assms show "xs ! i = c" "drop (Suc i) xs = r" by auto
qed

definition doomed_D :: "scan_state \<Rightarrow> bool" where
  "doomed_D st \<longleftrightarrow>
     (\<exists>r. drop (s_i st) (s_input st) = ''('' @ quoted ''X'' @ '')'' @ r
        \<or> drop (s_i st) (s_input st) = quoted ''X'' @ '')'' @ r)"

lemma doomed_D_step:
  assumes "doomed_D st"
  shows "s_i st < length (s_input st)"
    and "\<exists>st'. parse_step scenario_D_store st = Inr st' \<and> doomed_D st'"
proof -
  from assms obtain r where
    r: "drop (s_i st) (s_input st) = ''('' @ quoted ''X'' @ '')'' @ r
        \<or> drop (s_i st) (s_input st) = quoted ''X'' @ '')'' @ r"
    by (auto simp: doomed_D_def)
  then show "s_i st < length (s_input st)"
    by (cases "s_i st < length (s_input st)") (auto simp: quoted_def)
  from r show "\<exists>st'. parse_step scenario_D_store st = Inr st' \<and> doomed_D st'"
  proof
    assume a: "drop (s_i st) (s_input st) = ''('' @ quoted ''X'' @ '')'' @ r"
    then have "drop (s_i st) (s_input st) = CHR ''('' # (quoted ''X'' @ '')'' @ r)" by simp
    from drop_eq_ConsD[OF this]
    have "s_input st ! s_i st = CHR ''(''"
      "drop (Suc (s_i st)) (s_input st) = quoted ''X'' @ '')'' @ r" by auto
    then show ?thesis by (auto simp: parse_step_def doomed_D_def Let_def)
  next
    assume a: "drop (s_i st) (s_input st) = quoted ''X'' @ '')'' @ r"
    then have "drop (s_i st) (s_input st) = dquote # (''X'' @ [dquote] @ '')'' @ r)"
      by (simp add: quoted_def)
    from drop_eq_ConsD[OF this]
    have c: "s_input st ! s_i st = dquote" and i: "s_i st < length (s_input st)" by auto
    have sc: "scan_literal (s_input st) (s_i st) = s_i st + 3"
      by (simp add: scan_literal_def literal_char_def a quoted_def dquote_def backslash_def)
    have lit: "slice (s_input st) (s_i st) (s_i st + 3) = quoted ''X''"
      by (simp add: slice_def a quoted_def)
    have rest: "drop (s_i st + 3) (s_input st) = '')'' @ r"
    proof -
      have "drop (s_i st + 3) (s_input st) = drop 3 (drop (s_i st) (s_input st))"
        by (simp add: add.commute)
      then show ?thesis by (simp add: a quoted_def)
    qed
    show ?thesis
      using c i
      by (auto simp: parse_step_def Let_def sc lit rest scenario_D_store_def doomed_D_def
          dquote_def backslash_def min_def)
  qed
qed

lemma parseCNF_loop_doomed_D:
  "parseCNF_loop store st = Some y \<Longrightarrow> store = scenario_D_store \<Longrightarrow> \<not> doomed_D st"
proof (induction rule: parseCNF_loop.raw_induct[rotated 1, consumes 1])
  case (1 f store st y)
  show ?case
  proof
    assume d: "doomed_D st"
    from doomed_D_step[OF d] obtain st' where
      i: "s_i st < length (s_input st)" and
      st': "parse_step scenario_D_store st = Inr st'" "doomed_D st'" by blast
    from 1(2) i st' 1(3) have "f store st' = Some y" by simp
    from 1(1)[OF this 1(3)] st'(2) show False by simp
  qed
qed

lemma parseCNF_scan_scenario_D:
  "parseCNF_scan scenario_D_input varMap scenario_D_store = None"
proof -
  let ?st0 = "\<lparr>p_varMap = varMap, p_reverseMap = Map.empty, p_counter = 1, p_cnf = [],
              s_input = ReplaceAll_char scenario_D_input CHR '' '' [], s_i = 0, s_stack = [],
              s_currentClause = []\<rparr>"
  have "doomed_D ?st0"
    by (simp add: doomed_D_def scenario_D_input_def ReplaceAll_char_def quoted_def dquote_def)
  then have "parseCNF_loop scenario_D_store ?st0 = None"
    using parseCNF_loop_doomed_D[of scenario_D_store ?st0]
    by (cases "parseCNF_loop scenario_D_store ?st0") auto
  then show ?thesis by (simp add: parseCNF_scan_def)
qed

subsection \<open>Cyclic references in the scanning parser\<close>

text \<open>
  The names that the scanning loop reads from a text, in order: parentheses and the two
  operators are skipped, \<^verbatim>\<open>!\<close> starts a name after it, any other character starts a name at
  it, and a name runs up to the next closing parenthesis, slash or backslash. The loop
  replaces a name that is a key of the store by the stored text, as it is, and reads on from
  the start of that text.
\<close>

function scan_tokens :: "string \<Rightarrow> string list" where
  "scan_tokens [] = []"
| "scan_tokens (c # r) =
     (if c = CHR ''('' \<or> c = CHR '')'' then scan_tokens r
      else if c = CHR ''/'' then
        (case r of c' # r' \<Rightarrow> if c' = backslash then scan_tokens r' else scan_tokens r
                 | [] \<Rightarrow> [])
      else if c = backslash then
        (case r of c' # r' \<Rightarrow> if c' = CHR ''/'' then scan_tokens r' else scan_tokens r
                 | [] \<Rightarrow> [])
      else if c = CHR ''!'' then
        takeWhile literal_char r # scan_tokens (dropWhile literal_char r)
      else takeWhile literal_char (c # r) # scan_tokens (dropWhile literal_char r))"
  by pat_completeness auto
termination
  by (relation "measure length") (auto simp: length_dropWhile_le less_Suc_eq_le)

declare scan_tokens.simps(2) [simp del]

definition refers_scan :: "FormulaStore \<Rightarrow> string \<Rightarrow> string \<Rightarrow> bool" where
  "refers_scan store src src' \<longleftrightarrow>
     (\<exists>name\<in>set (scan_tokens src). Formulas store name = Some src')"

definition cyclic_scan :: "FormulaStore \<Rightarrow> string \<Rightarrow> bool" where
  "cyclic_scan store src \<longleftrightarrow>
     (\<exists>src'. (refers_scan store)\<^sup>*\<^sup>* src src' \<and> (refers_scan store)\<^sup>+\<^sup>+ src' src')"

lemma cycle_step:
  assumes "R\<^sup>*\<^sup>* s t" "R\<^sup>+\<^sup>+ t t"
  shows "\<exists>s' t'. R s s' \<and> R\<^sup>*\<^sup>* s' t' \<and> R\<^sup>+\<^sup>+ t' t'"
  using assms(1)
proof (cases rule: converse_rtranclpE)
  case base
  from assms(2) obtain t1 where "R t t1" "R\<^sup>*\<^sup>* t1 t" by (auto dest: tranclpD)
  with assms(2) base show ?thesis by blast
next
  case (step s1)
  with assms(2) show ?thesis by blast
qed

lemma cyclic_scan_iff:
  "cyclic_scan store src \<longleftrightarrow> (\<exists>src'. refers_scan store src src' \<and> cyclic_scan store src')"
proof
  assume "cyclic_scan store src"
  then show "\<exists>src'. refers_scan store src src' \<and> cyclic_scan store src'"
    unfolding cyclic_scan_def using cycle_step[of "refers_scan store" src] by blast
next
  assume "\<exists>src'. refers_scan store src src' \<and> cyclic_scan store src'"
  then show "cyclic_scan store src"
    unfolding cyclic_scan_def by (blast intro: converse_rtranclp_into_rtranclp)
qed

lemma cyclic_scan_mono:
  assumes "cyclic_scan store src" "\<And>t. refers_scan store src t \<Longrightarrow> refers_scan store src' t"
  shows "cyclic_scan store src'"
  using assms cyclic_scan_iff[of store src] cyclic_scan_iff[of store src'] by blast

lemma scan_tokens_skip:
  "scan_tokens (CHR ''/'' # r) = scan_tokens r \<and> scan_tokens (backslash # r) = scan_tokens r"
proof (induction r)
  case Nil
  show ?case by (simp add: scan_tokens.simps(2) backslash_def)
next
  case (Cons c r)
  then show ?case by (simp add: scan_tokens.simps(2)[of _ "c # r"] backslash_def)
qed

lemma scan_tokens_paren:
  "scan_tokens (CHR ''('' # r) = scan_tokens r" "scan_tokens (CHR '')'' # r) = scan_tokens r"
  by (simp_all add: scan_tokens.simps(2))

lemma scan_tokens_bang:
  "scan_tokens (CHR ''!'' # r) = takeWhile literal_char r # scan_tokens (dropWhile literal_char r)"
  by (simp add: scan_tokens.simps(2) backslash_def)

lemma scan_tokens_literal:
  assumes "c \<noteq> CHR ''(''" "c \<noteq> CHR '')''" "c \<noteq> CHR ''/''" "c \<noteq> backslash" "c \<noteq> CHR ''!''"
  shows "scan_tokens (c # r) = (c # takeWhile literal_char r) # scan_tokens (dropWhile literal_char r)"
  using assms by (simp add: scan_tokens.simps(2) literal_char_def)

lemma takeWhile_dropWhile_append:
  assumes "rest = [] \<or> \<not> P (hd rest)"
  shows "takeWhile P (r @ rest) = takeWhile P r" "dropWhile P (r @ rest) = dropWhile P r @ rest"
proof -
  from assms have "takeWhile P rest = []" "dropWhile P rest = rest" by (cases rest; auto)+
  then show "takeWhile P (r @ rest) = takeWhile P r" "dropWhile P (r @ rest) = dropWhile P r @ rest"
    by (induction r) auto
qed

lemma scan_tokens_append:
  assumes "rest = [] \<or> \<not> literal_char (hd rest)"
  shows "scan_tokens (a @ rest) = scan_tokens a @ scan_tokens rest"
proof (induction a rule: length_induct)
  case (1 a)
  note app = takeWhile_dropWhile_append[where P=literal_char and rest=rest, OF assms]
  show ?case
  proof (cases a)
    case Nil
    then show ?thesis by simp
  next
    case (Cons c r)
    have IH: "scan_tokens (x @ rest) = scan_tokens x @ scan_tokens rest" if "length x \<le> length r" for x
      using 1 that by (simp add: Cons)
    consider (paren) "c = CHR ''('' \<or> c = CHR '')''" | (slash) "c = CHR ''/'' \<or> c = backslash"
      | (bang) "c = CHR ''!''"
      | (lit) "c \<noteq> CHR ''(''" "c \<noteq> CHR '')''" "c \<noteq> CHR ''/''" "c \<noteq> backslash" "c \<noteq> CHR ''!''"
      by blast
    then show ?thesis
    proof cases
      case paren
      then show ?thesis using IH[of r] by (auto simp: Cons scan_tokens_paren)
    next
      case slash
      then show ?thesis using IH[of r] scan_tokens_skip by (auto simp: Cons)
    next
      case bang
      have "length (dropWhile literal_char r) \<le> length r" by (rule length_dropWhile_le)
      from IH[OF this] show ?thesis
        by (simp add: Cons bang scan_tokens_bang app)
    next
      case lit
      have "length (dropWhile literal_char r) \<le> length r" by (rule length_dropWhile_le)
      from IH[OF this] show ?thesis
        by (simp add: Cons scan_tokens_literal[OF lit] app)
    qed
  qed
qed


text \<open>
  One round of the scanning loop that does not panic leaves a rest of the input that still
  leads to a cycle; so the loop never reaches the end of such an input.
\<close>

lemma cyclic_scan_cong:
  "scan_tokens src = scan_tokens src' \<Longrightarrow> cyclic_scan store src = cyclic_scan store src'"
  using cyclic_scan_iff[of store src] cyclic_scan_iff[of store src']
  by (simp add: refers_scan_def)

lemma cyclic_scan_nonempty: "cyclic_scan store src \<Longrightarrow> src \<noteq> []"
  using cyclic_scan_iff[of store src] by (auto simp: refers_scan_def)

lemma scan_literal_facts:
  assumes "drop start input = rem"
  shows "slice input start (scan_literal input start) = takeWhile literal_char rem"
    and "drop (scan_literal input start) input = dropWhile literal_char rem"
proof -
  show "slice input start (scan_literal input start) = takeWhile literal_char rem"
    by (simp add: slice_def scan_literal_def assms takeWhile_eq_take[symmetric])
  have "drop (start + n) input = drop n (drop start input)" for n
    by (simp add: add.commute)
  then have "drop (scan_literal input start) input
      = drop (length (takeWhile literal_char rem)) (drop start input)"
    by (simp add: scan_literal_def assms)
  then show "drop (scan_literal input start) input = dropWhile literal_char rem"
    by (simp add: assms dropWhile_eq_drop[symmetric])
qed

lemma cyclic_scan_substitute:
  assumes cyc: "cyclic_scan store src"
    and toks: "scan_tokens src = literal # scan_tokens rest"
    and stored: "Formulas store literal = Some storedFormula"
    and rest: "rest = [] \<or> \<not> literal_char (hd rest)"
  shows "cyclic_scan store (storedFormula @ rest)"
proof -
  have toks': "scan_tokens (storedFormula @ rest) = scan_tokens storedFormula @ scan_tokens rest"
    by (rule scan_tokens_append[OF rest])
  from cyc obtain t where t: "refers_scan store src t" "cyclic_scan store t"
    using cyclic_scan_iff by blast
  then obtain name where name: "name \<in> set (scan_tokens src)" "Formulas store name = Some t"
    by (auto simp: refers_scan_def)
  show ?thesis
  proof (cases "name = literal")
    case True
    with name stored have "t = storedFormula" by simp
    with t(2) obtain t2 where "refers_scan store storedFormula t2" "cyclic_scan store t2"
      using cyclic_scan_iff by blast
    then have "refers_scan store (storedFormula @ rest) t2" "cyclic_scan store t2"
      by (auto simp: refers_scan_def toks')
    then show ?thesis using cyclic_scan_iff by blast
  next
    case False
    with name toks have "refers_scan store (storedFormula @ rest) t"
      by (auto simp: refers_scan_def toks')
    with t(2) show ?thesis using cyclic_scan_iff by blast
  qed
qed

lemma cyclic_scan_consume:
  assumes cyc: "cyclic_scan store src"
    and toks: "scan_tokens src = literal # scan_tokens rest"
    and stored: "Formulas store literal = None"
  shows "cyclic_scan store rest"
proof (rule cyclic_scan_mono[OF cyc])
  fix t assume "refers_scan store src t"
  then show "refers_scan store rest t"
    using stored by (auto simp: refers_scan_def toks)
qed

lemma hd_dropWhile_literal:
  "dropWhile literal_char r = [] \<or> \<not> literal_char (hd (dropWhile literal_char r))"
  using hd_dropWhile[of literal_char r] by blast

lemma assignVar_scan_frame:
  "s_input (snd (assignVar_scan v st)) = s_input st" "s_i (snd (assignVar_scan v st)) = s_i st"
  by (simp_all add: assignVar_scan_def split: option.splits)

lemma parse_step_cyclic:
  assumes cyc: "cyclic_scan store (drop (s_i st) (s_input st))"
    and step: "parse_step store st = Inr st'"
  shows "cyclic_scan store (drop (s_i st') (s_input st'))"
proof -
  let ?i = "s_i st" and ?input = "s_input st"
  from cyclic_scan_nonempty[OF cyc] obtain c r where rem: "drop ?i ?input = c # r"
    by (cases "drop ?i ?input") auto
  from drop_eq_ConsD[OF rem] have i: "?i < length ?input" and c: "?input ! ?i = c"
    and r: "drop (Suc ?i) ?input = r" by auto
  note cyc' = cyc[unfolded rem]
  consider (open_paren) "c = CHR ''(''" | (close_paren) "c = CHR '')''" | (slash) "c = CHR ''/''"
    | (bslash) "c = backslash" | (bang) "c = CHR ''!''"
    | (lit) "c \<noteq> CHR ''(''" "c \<noteq> CHR '')''" "c \<noteq> CHR ''/''" "c \<noteq> backslash" "c \<noteq> CHR ''!''"
    by blast
  then show ?thesis
  proof cases
    case open_paren
    with step c have "s_input st' = ?input" "s_i st' = Suc ?i"
      by (auto simp: parse_step_def Let_def)
    with cyc' show ?thesis
      by (simp add: r open_paren cyclic_scan_cong[OF scan_tokens_paren(1)])
  next
    case close_paren
    with step c have "s_input st' = ?input" "s_i st' = Suc ?i"
      by (auto simp: parse_step_def Let_def flush_clause_def split: if_splits)
    with cyc' show ?thesis
      by (simp add: r close_paren cyclic_scan_cong[OF scan_tokens_paren(2)])
  next
    case slash
    from cyc' have cr: "cyclic_scan store r"
      using scan_tokens_skip[of r] by (simp add: slash cyclic_scan_cong[of "CHR ''/'' # r" r])
    show ?thesis
    proof (cases "?i + 1 < length ?input \<and> ?input ! (?i + 1) = backslash")
      case True
      with step c slash have st': "s_input st' = ?input" "s_i st' = ?i + 2"
        by (auto simp: parse_step_def Let_def flush_clause_def backslash_def split: if_splits)
      from True r have "r = backslash # drop (?i + 2) ?input"
        using Cons_nth_drop_Suc[of "Suc ?i" ?input] by auto
      with cr have "cyclic_scan store (drop (?i + 2) ?input)"
        using cyclic_scan_cong[OF conjunct2[OF scan_tokens_skip]] by blast
      then show ?thesis by (simp add: st')
    next
      case False
      with step c slash have "s_input st' = ?input" "s_i st' = Suc ?i"
        by (auto simp: parse_step_def Let_def backslash_def split: if_splits)
      with cr show ?thesis by (simp add: r)
    qed
  next
    case bslash
    from cyc' have cr: "cyclic_scan store r"
      using scan_tokens_skip[of r] by (simp add: bslash cyclic_scan_cong[of "backslash # r" r])
    show ?thesis
    proof (cases "?i + 1 < length ?input \<and> ?input ! (?i + 1) = CHR ''/''")
      case True
      with step c bslash have st': "s_input st' = ?input" "s_i st' = ?i + 2"
        by (auto simp: parse_step_def Let_def backslash_def split: if_splits)
      from True r have "r = CHR ''/'' # drop (?i + 2) ?input"
        using Cons_nth_drop_Suc[of "Suc ?i" ?input] by auto
      with cr have "cyclic_scan store (drop (?i + 2) ?input)"
        using cyclic_scan_cong[OF conjunct1[OF scan_tokens_skip]] by blast
      then show ?thesis by (simp add: st')
    next
      case False
      with step c bslash have "s_input st' = ?input" "s_i st' = Suc ?i"
        by (auto simp: parse_step_def Let_def backslash_def split: if_splits)
      with cr show ?thesis by (simp add: r)
    qed
  next
    case bang
    let ?lit = "takeWhile literal_char r" and ?rest = "dropWhile literal_char r"
    note sl = scan_literal_facts[OF r]
    have toks: "scan_tokens (c # r) = ?lit # scan_tokens ?rest"
      by (simp add: bang scan_tokens_bang)
    show ?thesis
    proof (cases "Formulas store ?lit")
      case None
      with step c bang have "s_input st' = ?input" "s_i st' = scan_literal ?input (?i + 1)"
        by (auto simp: parse_step_def Let_def sl backslash_def assignVar_scan_def
            split: prod.splits option.splits)
      with cyclic_scan_consume[OF cyc' toks None] show ?thesis by (simp add: sl)
    next
      case (Some storedFormula)
      with step c bang have "s_input st' = take ?i ?input @ storedFormula @ ?rest" "s_i st' = ?i"
        by (auto simp: parse_step_def Let_def sl backslash_def)
      moreover have "drop ?i (take ?i ?input @ storedFormula @ ?rest) = storedFormula @ ?rest"
        using i by simp
      ultimately show ?thesis
        using cyclic_scan_substitute[OF cyc' toks Some hd_dropWhile_literal] by simp
    qed
  next
    case lit
    let ?lit = "takeWhile literal_char (c # r)" and ?rest = "dropWhile literal_char (c # r)"
    note sl = scan_literal_facts[OF rem]
    have lc: "literal_char c" using lit by (simp add: literal_char_def)
    have toks: "scan_tokens (c # r) = ?lit # scan_tokens ?rest"
      using scan_tokens_literal[OF lit, of r] lc by simp
    show ?thesis
    proof (cases "Formulas store ?lit")
      case None
      with step c lit have "s_input st' = ?input" "s_i st' = scan_literal ?input ?i"
        by (auto simp: parse_step_def Let_def sl assignVar_scan_def
            split: prod.splits option.splits)
      with cyclic_scan_consume[OF cyc' toks None] show ?thesis by (simp add: sl)
    next
      case (Some storedFormula)
      with step c lit have "s_input st' = take ?i ?input @ storedFormula @ ?rest" "s_i st' = ?i"
        by (auto simp: parse_step_def Let_def sl)
      moreover have "drop ?i (take ?i ?input @ storedFormula @ ?rest) = storedFormula @ ?rest"
        using i by simp
      moreover have "?rest = [] \<or> \<not> literal_char (hd ?rest)"
        using hd_dropWhile[of literal_char "c # r"] by blast
      ultimately show ?thesis
        using cyclic_scan_substitute[OF cyc' toks Some] by simp
    qed
  qed
qed


lemma parseCNF_loop_cyclic:
  "parseCNF_loop store st = Some y \<Longrightarrow> cyclic_scan store (drop (s_i st) (s_input st)) \<Longrightarrow> isl y"
proof (induction rule: parseCNF_loop.raw_induct[rotated 1, consumes 1])
  case (1 f store st y)
  from cyclic_scan_nonempty[OF 1(3)] have i: "s_i st < length (s_input st)" by simp
  show ?case
  proof (cases "parse_step store st")
    case (Inl e)
    with 1(2) i show ?thesis by auto
  next
    case (Inr st')
    with 1(2) i have "f store st' = Some y" by simp
    then show ?thesis
      by (rule 1(1)) (rule parse_step_cyclic[OF 1(3) Inr])
  qed
qed

lemma parseCNF_scan_cyclic:
  assumes "cyclic_scan store (ReplaceAll_char input CHR '' '' [])"
  shows "parseCNF_scan input varMap store \<noteq> Some (Inr result)"
proof
  assume ret: "parseCNF_scan input varMap store = Some (Inr result)"
  let ?st = "\<lparr>p_varMap = varMap, p_reverseMap = Map.empty, p_counter = 1, p_cnf = [],
              s_input = ReplaceAll_char input CHR '' '' [], s_i = 0, s_stack = [],
              s_currentClause = []\<rparr>"
  from ret obtain st' where "parseCNF_loop store ?st = Some (Inr st')"
    by (auto simp: parseCNF_scan_def Let_def split: option.splits sum.splits)
  from parseCNF_loop_cyclic[OF this] assms show False by simp
qed


lemma cyclic_scan_scenario_D:
  "cyclic_scan scenario_D_store (ReplaceAll_char scenario_D_input CHR '' '' [])"
proof -
  have "scan_tokens scenario_D_input = [quoted ''X'']"
    by (simp add: scenario_D_input_def quoted_def dquote_def backslash_def scan_tokens.simps(2)
        literal_char_def)
  then have "refers_scan scenario_D_store scenario_D_input scenario_D_input"
    by (simp add: refers_scan_def scenario_D_store_def scenario_D_input_def)
  moreover have "ReplaceAll_char scenario_D_input CHR '' '' [] = scenario_D_input"
    by (simp add: scenario_D_input_def ReplaceAll_char_def quoted_def dquote_def)
  ultimately show ?thesis unfolding cyclic_scan_def by auto
qed

text \<open>
  Claim C3 says that on cyclic references \<^verbatim>\<open>parseCNF\<close> fails fast with a
  CyclicReferenceError. Neither parser keeps a set of names being expanded, and neither has
  such an error. On Scenario D neither call returns: the model's value \<open>None\<close> stands for
  the unbounded recursion of the first parser and for the endless loop, over an ever longer
  input, of the second.
\<close>

theorem scenario_D_no_error:
  "parseCNF scenario_D_input Map.empty scenario_D_store = None
   \<and> parseCNF_scan scenario_D_input Map.empty scenario_D_store = None"
proof
  show "parseCNF scenario_D_input Map.empty scenario_D_store = None"
    using parseCNF_Some_acyclic[of scenario_D_input Map.empty scenario_D_store] cyclic_scenario_D
    by (cases "parseCNF scenario_D_input Map.empty scenario_D_store") auto
  show "parseCNF_scan scenario_D_input Map.empty scenario_D_store = None"
    by (rule parseCNF_scan_scenario_D)
qed

text \<open>
  Claim C3 as amended: there is no cycle detection. For every input whose stored-formula
  references form a cycle or lead to one (a formula whose text refers to itself, or stored
  formulas that refer to each other), and for every \<^verbatim>\<open>varMap\<close>, the recursive \<^verbatim>\<open>parseCNF\<close>
  does not return and reports no error. The scanning \<^verbatim>\<open>parseCNF\<close> of the second source file
  returns no formula for an input whose names, as its loop reads them, lead to a cycle: it
  loops without end or stops on a slice out of range; on the self-referential formula of
  Scenario D it loops without end.
\<close>

theorem parseCNF_cyclic_diverges:
  "(cyclic store input \<longrightarrow> parseCNF input varMap store = None)
   \<and> (cyclic_scan store (ReplaceAll_char input CHR '' '' [])
        \<longrightarrow> (\<forall>result. parseCNF_scan input varMap store \<noteq> Some (Inr result)))
   \<and> parseCNF_scan scenario_D_input varMap scenario_D_store = None"
proof (intro conjI)
  show "cyclic store input \<longrightarrow> parseCNF input varMap store = None"
    using parseCNF_Some_acyclic[of input varMap store]
    by (cases "parseCNF input varMap store") auto
  show "cyclic_scan store (ReplaceAll_char input CHR '' '' [])
        \<longrightarrow> (\<forall>result. parseCNF_scan input varMap store \<noteq> Some (Inr result))"
    using parseCNF_scan_cyclic by blast
  show "parseCNF_scan scenario_D_input varMap scenario_D_store = None"
    by (rule parseCNF_scan_scenario_D)
qed

theorem parseCNF_cyclic_diverges_witness:
  "cyclic mutual_store mutual_input \<and> parseCNF mutual_input Map.empty mutual_store = None
   \<and> cyclic_scan scenario_D_store (ReplaceAll_char scenario_D_input CHR '' '' [])
   \<and> (\<forall>result. parseCNF_scan scenario_D_input Map.empty scenario_D_store \<noteq> Some (Inr result))"
  using parseCNF_cyclic_diverges[of mutual_store mutual_input Map.empty]
    parseCNF_cyclic_diverges[of scenario_D_store scenario_D_input Map.empty]
    cyclic_mutual cyclic_scan_scenario_D by simp

subsection \<open>The variable registry\<close>

text \<open>
  Claim C4 says that across one top-level \<^verbatim>\<open>parseCNF\<close> call and its recursive expansions
  two distinct names never receive the same id. The map \<^verbatim>\<open>varMap\<close> is shared by the
  recursive calls, but \<^verbatim>\<open>counter\<close> is a local variable that every call starts at 1. With
  \<^verbatim>\<open>"R"\<close> stored as \<^verbatim>\<open>("b")\<close>, parsing \<^verbatim>\<open>("a" \/ "R")\<close> gives \<^verbatim>\<open>"a"\<close> the id 1 in the outer
  call and \<^verbatim>\<open>"b"\<close> the id 1 in the recursive call; the formula returned is \<open>[[1], [1]]\<close>.
\<close>

theorem registry_collision:
  "parseCNF (''('' @ quoted ''a'' @ '' '' @ OR_sep @ '' '' @ quoted ''R'' @ '')'') Map.empty
      \<lparr>Formulas = [quoted ''R'' \<mapsto> ''('' @ quoted ''b'' @ '')''], Assignments = Map.empty\<rparr>
   = Some ([[1], [1]], [1 \<mapsto> quoted ''a''], [quoted ''a'' \<mapsto> 1, quoted ''b'' \<mapsto> 1])"
  by (simp add: parser_eval)

subsection \<open>Scenario C\<close>

text \<open>
  The store holds \<^verbatim>\<open>R\<close> with the text \<^verbatim>\<open>(!"j" \/ !"y")\<close> and the text parsed is
  \<^verbatim>\<open>("R" \/ "j") /\ ("j" \/ "y")\<close>. The parser looks a token up with its quotes on, so the
  reference resolves only if the key is \<^verbatim>\<open>"R"\<close>, quotes included.
\<close>

definition scenario_C_store :: FormulaStore where
  "scenario_C_store =
     \<lparr>Formulas = [quoted ''R'' \<mapsto> ''(!'' @ quoted ''j'' @ '' '' @ OR_sep @ '' !'' @ quoted ''y'' @ '')''],
      Assignments = Map.empty\<rparr>"

definition scenario_C_store_unquoted :: FormulaStore where
  "scenario_C_store_unquoted =
     \<lparr>Formulas = [''R'' \<mapsto> ''(!'' @ quoted ''j'' @ '' '' @ OR_sep @ '' !'' @ quoted ''y'' @ '')''],
      Assignments = Map.empty\<rparr>"

definition scenario_C_input :: string where
  "scenario_C_input =
     ''('' @ quoted ''R'' @ '' '' @ OR_sep @ '' '' @ quoted ''j'' @ '') '' @ AND_sep @
     '' ('' @ quoted ''j'' @ '' '' @ OR_sep @ '' '' @ quoted ''y'' @ '')''"

text \<open>
  Claim C7 says that the text expands to exactly the two clauses \<open>[-j, -y, j]\<close> and
  \<open>[j, y]\<close> and that the engine reports satisfiable. With the key \<^verbatim>\<open>"R"\<close> the clauses of
  \<^verbatim>\<open>R\<close> are appended to the formula as clauses of their own, and the result has the three
  clauses \<open>[-j, -y]\<close>, \<open>[j]\<close>, \<open>[j, y]\<close>, with \<open>j = 1\<close> and \<open>y = 2\<close>. With the key \<^verbatim>\<open>R\<close>
  nothing is substituted and \<^verbatim>\<open>"R"\<close> is a variable of its own. In both cases the search
  reports satisfiable.
\<close>

theorem scenario_C_expansion:
  "parseCNF scenario_C_input Map.empty scenario_C_store
     = Some ([[- 1, - 2], [1], [1, 2]], Map.empty, [quoted ''j'' \<mapsto> 1, quoted ''y'' \<mapsto> 2])
   \<and> DPLL [[- 1, - 2], [1], [1, 2]] Map.empty = (True, [1 \<mapsto> True, 2 \<mapsto> False])
   \<and> parseCNF scenario_C_input Map.empty scenario_C_store_unquoted
     = Some ([[1, 2], [2, 3]],
             [1 \<mapsto> quoted ''R'', 2 \<mapsto> quoted ''j'', 3 \<mapsto> quoted ''y''],
             [quoted ''R'' \<mapsto> 1, quoted ''j'' \<mapsto> 2, quoted ''y'' \<mapsto> 3])
   \<and> DPLL [[1, 2], [2, 3]] Map.empty = (True, [1 \<mapsto> True, 2 \<mapsto> True, 3 \<mapsto> True])"
  by (simp add: scenario_C_input_def scenario_C_store_def scenario_C_store_unquoted_def
      parser_eval solver_eval)

end
